theory Spec2Isabelle
  imports Main "HOL-Library.AList"
begin

unbundle bit_operations_syntax

section \<open>Values and errors\<close>

text \<open>
  A cell of a decoded device-tree property. The parser distinguishes integers
  (\<open>isinstance(val, numbers.Integral)\<close>) from everything else; the only other
  values a decoded property holds are strings (labels and references).
\<close>

datatype cell = CInt int | CStr string

text \<open>The messages of \<open>TemplateError\<close>, one constructor per format string of the source.\<close>

datatype template_error =
    CycleInGroupLabelling "string list"
      \<comment> \<open>\<open>'cycle in group labelling: %s' % ', '.join(seen)\<close>\<close>
  | FoundValuesButExpecting nat nat
      \<comment> \<open>\<open>'Found {} values, but expecting {} per interrupt'\<close>\<close>
  | PeripheralHasInterrupts nat int
      \<comment> \<open>\<open>'Peripheral has {} interrupts, max. {} are supported'\<close>\<close>
  | IsNotANumber nat nat nat nat string cell
      \<comment> \<open>\<open>'Error parsing interrupt {}/{} (cells={}, idx={}): {} "{}" is not a number'\<close>\<close>

text \<open>
  The exceptions the modelled functions can raise. \<open>TypeError\<close> carries the operator
  whose operands Python 3 rejects. The two \<open>Exception\<close> messages of the badge
  allocators carry the string of the end they name.
\<close>

datatype type_error =
    Unsupported_mod_TemplateError_int
      \<comment> \<open>\<open>TemplateError(...) % n\<close>: an exception object has no \<open>%\<close>\<close>
  | Unsupported_add_str_int
      \<comment> \<open>\<open>'s' + 32\<close>\<close>
  | Unsupported_less_str_int
      \<comment> \<open>\<open>'s' < 4\<close>\<close>
  | NoneType_not_subscriptable
      \<comment> \<open>\<open>None[0]\<close>\<close>

datatype error =
    TemplateError template_error
  | TypeError type_error
  | IndexError
  | AttributeError
  | AssertionError
  | ValueError
  | CouldntAllocateNotificationBadge string
      \<comment> \<open>\<open>Exception("Couldn't allocate notification badge for %s" % end)\<close>\<close>
  | CouldntAllocateEndpointBadge string
      \<comment> \<open>\<open>Exception("Couldn't allocate endpoint badge for %s" % end)\<close>\<close>

text \<open>Sequencing of computations that may raise: the first exception wins.\<close>

fun bind :: "error + 'a \<Rightarrow> ('a \<Rightarrow> error + 'b) \<Rightarrow> error + 'b" where
  "bind (Inl e) f = Inl e"
| "bind (Inr x) f = f x"

text \<open>A \<open>for\<close> loop that appends one result per element and stops at the first exception.\<close>

fun for_each :: "('a \<Rightarrow> error + 'b) \<Rightarrow> 'a list \<Rightarrow> error + 'b list" where
  "for_each f [] = Inr []"
| "for_each f (x # xs) =
     bind (f x) (\<lambda>y. bind (for_each f xs) (\<lambda>ys. Inr (y # ys)))"

text \<open>\<open>xs[i]\<close> for a non-negative index: out of range raises \<open>IndexError\<close>.\<close>

definition subscript :: "'a list \<Rightarrow> nat \<Rightarrow> error + 'a" where
  "subscript xs i = (if i < length xs then Inr (xs ! i) else Inl IndexError)"

section \<open>Interrupt descriptor parser\<close>

text \<open>
  The node as \<open>parse_dtb_node_interrupts\<close> reads it: \<open>node.get('interrupts')\<close> and
  \<open>node.get('interrupts_extended')\<close>, each absent (\<open>None\<close>) or a list of cells.
\<close>

record dtb_node =
  interrupts :: "cell list option"
  interrupts_extended :: "cell list option"

text \<open>The descriptor \<open>{'irq': ..., 'trigger': ...}\<close>. On the ARM branch \<open>irq\<close> is
  whatever cell the list holds, so it is a cell here.\<close>

record irq_desc =
  irq :: cell
  trigger :: int

text \<open>\<open>_irq + 32\<close> and \<open>_trigger < 4\<close> on a cell (Python 3: a string operand raises).\<close>

fun add32 :: "cell \<Rightarrow> error + cell" where
  "add32 (CInt n) = Inr (CInt (n + 32))"
| "add32 (CStr s) = Inl (TypeError Unsupported_add_str_int)"

fun less4 :: "cell \<Rightarrow> error + bool" where
  "less4 (CInt n) = Inr (n < 4)"
| "less4 (CStr s) = Inl (TypeError Unsupported_less_str_int)"

text \<open>\<open>isinstance(_irq_spi, numbers.Integral) and (_irq_spi == 0)\<close>\<close>

fun is_integral_zero :: "cell \<Rightarrow> bool" where
  "is_integral_zero (CInt n) = (n = 0)"
| "is_integral_zero (CStr s) = False"

text \<open>The body of the ARM loop (source lines 730 to 742) for one index \<open>i\<close>.\<close>

definition arm_interrupt :: "bool \<Rightarrow> cell list \<Rightarrow> nat \<Rightarrow> error + irq_desc" where
  "arm_interrupt is_extended_interrupts xs i =
     bind (subscript xs (if is_extended_interrupts then i * 3 + 3 else i * 3 + 2)) (\<lambda>trigger0.
     bind (subscript xs (if is_extended_interrupts then i * 3 + 2 else i * 3 + 1)) (\<lambda>irq0.
     bind (subscript xs (if is_extended_interrupts then i * 3 + 1 else i * 3 + 0)) (\<lambda>irq_spi.
     bind (if is_integral_zero irq_spi then add32 irq0 else Inr irq0) (\<lambda>irq1.
     bind (less4 trigger0) (\<lambda>lt.
     Inr \<lparr>irq = irq1, trigger = (if lt then 1 else 0)\<rparr>)))))"

text \<open>
  The ARM branch (source lines 718 to 743). The \<open>raise\<close> of line 727 applies \<open>%\<close> to
  the \<open>TemplateError\<close> object, not to its format string: Python evaluates
  \<open>TemplateError('...') % (max_num_interrupts)\<close> before raising, and an exception
  object has no \<open>%\<close> operator, so what is raised is a \<open>TypeError\<close>.
\<close>

definition parse_arm :: "bool \<Rightarrow> cell list \<Rightarrow> int \<Rightarrow> error + irq_desc list" where
  "parse_arm is_extended_interrupts xs max_num_interrupts =
     (let num_interrupts =
            (if is_extended_interrupts then length xs div 4 else length xs div 3)
      in if max_num_interrupts \<noteq> -1 \<and> int num_interrupts > max_num_interrupts
         then Inl (TypeError Unsupported_mod_TemplateError_int)
         else for_each (arm_interrupt is_extended_interrupts xs) [0..<num_interrupts])"

text \<open>\<open>parse_int(offs, name)\<close> of the generic branch (source lines 782 to 790).\<close>

definition parse_int ::
  "cell list \<Rightarrow> nat \<Rightarrow> nat \<Rightarrow> nat \<Rightarrow> nat \<Rightarrow> string \<Rightarrow> error + int" where
  "parse_int xs i num_interrupts interrupt_cells offs name =
     (let idx = i * interrupt_cells + offs
      in bind (subscript xs idx) (\<lambda>val.
           case val of
             CInt n \<Rightarrow> Inr n
           | CStr s \<Rightarrow> Inl (TemplateError
                (IsNotANumber (i + 1) num_interrupts interrupt_cells idx name val))))"

text \<open>The body of the generic loop (source lines 780 to 832) for one index \<open>i\<close>.\<close>

definition generic_interrupt ::
  "(string \<Rightarrow> bool) \<Rightarrow> string \<Rightarrow> cell list \<Rightarrow> nat \<Rightarrow> nat \<Rightarrow> nat \<Rightarrow> error + irq_desc" where
  "generic_interrupt is_arch_arm arch xs num_interrupts interrupt_cells i =
     (let offs_irq = (if 3 = interrupt_cells then Some 1
                      else if 1 = interrupt_cells then Some 0 else None)
      in case offs_irq of
           None \<Rightarrow> Inl AssertionError
         | Some o_irq \<Rightarrow>
     bind (parse_int xs i num_interrupts interrupt_cells o_irq ''id'') (\<lambda>irq0.
     bind (if 3 = interrupt_cells
           then bind (parse_int xs i num_interrupts interrupt_cells 2 ''trigger'')
                  (\<lambda>v. Inr (Some v))
           else Inr None) (\<lambda>irq_flags.
     bind (if 3 = interrupt_cells
           then bind (parse_int xs i num_interrupts interrupt_cells 0 ''type'')
                  (\<lambda>v. Inr (Some v))
           else Inr None) (\<lambda>irq_type.
     let is_edge_triggered =
           (case irq_flags of None \<Rightarrow> True | Some fl \<Rightarrow> 0 \<noteq> (fl AND 3));
         is_arm_spi =
           (case irq_type of None \<Rightarrow> False | Some t \<Rightarrow> is_arch_arm arch \<and> 0 = t)
     in Inr \<lparr>irq = CInt (if is_arm_spi then irq0 + 32 else irq0),
             trigger = (if is_edge_triggered then 1 else 0)\<rparr>))))"

text \<open>The generic branch (source lines 756 to 834).\<close>

definition parse_generic ::
  "(string \<Rightarrow> bool) \<Rightarrow> string \<Rightarrow> bool \<Rightarrow> cell list \<Rightarrow> int \<Rightarrow> error + irq_desc list" where
  "parse_generic is_arch_arm arch is_extended_interrupts xs0 max_num_interrupts =
     (if is_extended_interrupts \<and> \<not> length xs0 > 1 then Inr []
      else
        let xs = (if is_extended_interrupts then drop 1 xs0 else xs0);
            interrupt_cells = (if length xs < 3 then 1 else 3)
        in if 0 \<noteq> length xs mod interrupt_cells
           then Inl (TemplateError (FoundValuesButExpecting (length xs) interrupt_cells))
           else
             let num_interrupts = length xs div interrupt_cells
             in if max_num_interrupts \<noteq> -1 \<and> int num_interrupts > max_num_interrupts
                then Inl (TemplateError
                       (PeripheralHasInterrupts num_interrupts max_num_interrupts))
                else for_each
                       (generic_interrupt is_arch_arm arch xs num_interrupts interrupt_cells)
                       [0..<num_interrupts])"

text \<open>
  \<open>parse_dtb_node_interrupts(node, max_num_interrupts, arch)\<close>. The predicate
  \<open>is_arch_arm\<close> comes from \<open>camkes.templates.arch_helpers\<close>, which is not part of the
  sources at hand, so it is a parameter.
\<close>

definition parse_dtb_node_interrupts ::
  "(string \<Rightarrow> bool) \<Rightarrow> dtb_node \<Rightarrow> int \<Rightarrow> string \<Rightarrow> error + irq_desc list" where
  "parse_dtb_node_interrupts is_arch_arm node max_num_interrupts arch =
     (case (case interrupts node of
              Some xs \<Rightarrow> Some (False, xs)
            | None \<Rightarrow> (case interrupts_extended node of
                         None \<Rightarrow> None
                       | Some xs \<Rightarrow> Some (True, xs))) of
        None \<Rightarrow> Inr []
      | Some (is_extended_interrupts, xs) \<Rightarrow>
          if is_arch_arm arch
          then parse_arm is_extended_interrupts xs max_num_interrupts
          else parse_generic is_arch_arm arch is_extended_interrupts xs max_num_interrupts)"

section \<open>Graph model and configuration store\<close>

text \<open>
  The classes of \<open>camkes.ast\<close> as the macros read them. Python compares ends and
  instances with \<open>is\<close> (object identity), so every object carries a reference; two
  objects are the same object when their references are equal. \<open>end_str\<close> is the value
  of \<open>str(end)\<close>, whose format \<open>camkes.ast\<close> defines.
\<close>

record component_instance =
  inst_ref :: nat
  name :: string
  address_space :: string

record connection_end =
  end_ref :: nat
  end_instance :: component_instance
  interface_name :: string
  end_str :: string

text \<open>
  \<open>get_attribute a\<close> is \<open>None\<close> when the connector type has no attribute \<open>a\<close>, and
  otherwise the truth value of the attribute's \<open>default\<close>.
\<close>

record connector_type =
  type_name :: string
  get_attribute :: "string \<Rightarrow> bool option"

record connection =
  conn_name :: string
  conn_type :: connector_type
  from_ends :: "connection_end list"
  to_ends :: "connection_end list"

record composition =
  instances :: "component_instance list"
  connections :: "connection list"

text \<open>
  The configuration store, \<open>configuration[scope].get(key)\<close>, by the type of the value
  the macros expect: integer settings, the truth value of \<open>generate_interrupts\<close>
  (default \<open>False\<close>), the \<open>dtb\<close> setting with its \<open>query\<close> list (each of the two
  may be missing), and the \<open>integrity_label\<close>.
\<close>

record configuration =
  setting_int :: "string \<Rightarrow> string \<Rightarrow> int option"
  generate_interrupts :: "string \<Rightarrow> bool"
  dtb_query :: "string \<Rightarrow> dtb_node list option option"
  integrity_label :: "string \<Rightarrow> string option"

text \<open>\<open>c.type.get_attribute(a) and c.type.get_attribute(a).default\<close>\<close>

definition attribute_default :: "connection \<Rightarrow> string \<Rightarrow> bool" where
  "attribute_default c a = (case get_attribute (conn_type c) a of None \<Rightarrow> False | Some d \<Rightarrow> d)"

text \<open>A loop body either returns from the enclosing function or goes on with a new state.\<close>

datatype ('r, 's) flow = Return 'r | Continue 's

section \<open>Notification badge allocator\<close>

text \<open>
  \<open>set_next_badge\<close> of \<open>global_endpoint_badges\<close> (source lines 545 to 554). The
  cursor starts at 0 and is only ever set to 1 or shifted left, so it is a natural
  number; the mask is any integer of the configuration. \<open>badge_bits\<close> stands for
  \<open>get_libsel4_constant('seL4_Value_BadgeBits')\<close>, and \<open>e\<close> is the string of the end
  the exception names.
\<close>

function set_next_badge :: "nat \<Rightarrow> string \<Rightarrow> nat \<Rightarrow> int \<Rightarrow> error + nat" where
  "set_next_badge badge_bits e next_badge msk =
     (if next_badge \<ge> 2 ^ badge_bits then Inl (CouldntAllocateNotificationBadge e)
      else
        let next_badge1 = (if next_badge = 0 then 1 else push_bit 1 next_badge)
        in if int next_badge1 AND msk = 0
           then set_next_badge badge_bits e next_badge1 msk
           else Inr next_badge1)"
  by pat_completeness auto
termination
  by (relation "measure (\<lambda>(badge_bits, e, next_badge, msk). 2 ^ badge_bits - next_badge)")
     (auto simp: push_bit_eq_mult)

declare set_next_badge.simps [simp del]

text \<open>What \<open>global_endpoint_badges\<close> returns: one badge, or the list \<open>irq_badges\<close>.\<close>

datatype badges = Badge int | Badges "int list"

text \<open>The loop \<open>for i in irqs\<close> (source lines 570 to 572).\<close>

fun irq_badges_loop ::
  "nat \<Rightarrow> string \<Rightarrow> int \<Rightarrow> int \<Rightarrow> irq_desc list \<Rightarrow> nat \<Rightarrow> error + (int list \<times> nat)" where
  "irq_badges_loop badge_bits e base msk [] next_badge = Inr ([], next_badge)"
| "irq_badges_loop badge_bits e base msk (i # irqs) next_badge =
     bind (set_next_badge badge_bits e next_badge msk) (\<lambda>next_badge1.
     bind (irq_badges_loop badge_bits e base msk irqs next_badge1) (\<lambda>(bs, next_badge2).
     Inr ((int next_badge OR base) # bs, next_badge2)))"

text \<open>\<open>configuration[str(to_end)].get("dtb").get('query')[0]\<close>\<close>

definition dtb_of :: "configuration \<Rightarrow> string \<Rightarrow> error + dtb_node" where
  "dtb_of cfg scope =
     (case dtb_query cfg scope of
        None \<Rightarrow> Inl AttributeError
      | Some None \<Rightarrow> Inl (TypeError NoneType_not_subscriptable)
      | Some (Some q) \<Rightarrow> subscript q 0)"

text \<open>The loop \<open>for to_end in c.to_ends\<close> of a threadless connection (lines 564 to 574).\<close>

fun threadless_loop ::
  "(string \<Rightarrow> bool) \<Rightarrow> nat \<Rightarrow> string \<Rightarrow> configuration \<Rightarrow> connection_end \<Rightarrow> int \<Rightarrow> int \<Rightarrow>
   connection_end list \<Rightarrow> nat \<Rightarrow> error + (int list, nat) flow" where
  "threadless_loop is_arch_arm badge_bits arch cfg e base msk [] next_badge =
     Inr (Continue next_badge)"
| "threadless_loop is_arch_arm badge_bits arch cfg e base msk (to_end # rest) next_badge =
     (if \<not> generate_interrupts cfg (end_str to_end)
      then threadless_loop is_arch_arm badge_bits arch cfg e base msk rest next_badge
      else
        bind (dtb_of cfg (end_str to_end)) (\<lambda>dtb.
        bind (parse_dtb_node_interrupts is_arch_arm dtb (-1) arch) (\<lambda>irqs.
        bind (irq_badges_loop badge_bits (end_str e) base msk irqs next_badge)
          (\<lambda>(irq_badges, next_badge1).
        if end_ref e = end_ref to_end then Inr (Return irq_badges)
        else threadless_loop is_arch_arm badge_bits arch cfg e base msk rest next_badge1))))"

text \<open>The loop \<open>for i in c.from_ends\<close> and the loop \<open>for i in c.to_ends\<close> (lines 576 to 586).\<close>

fun endpoint_loop ::
  "nat \<Rightarrow> connection_end \<Rightarrow> int \<Rightarrow> int \<Rightarrow> connection_end list \<Rightarrow> nat \<Rightarrow>
   error + (int, nat) flow" where
  "endpoint_loop badge_bits e base msk [] next_badge = Inr (Continue next_badge)"
| "endpoint_loop badge_bits e base msk (i # rest) next_badge =
     (if inst_ref (end_instance i) = inst_ref (end_instance e)
      then if end_ref e = end_ref i then Inr (Return (int next_badge OR base))
           else bind (set_next_badge badge_bits (end_str e) next_badge msk)
                  (endpoint_loop badge_bits e base msk rest)
      else endpoint_loop badge_bits e base msk rest next_badge)"

text \<open>The condition of line 563.\<close>

definition is_threadless_of :: "connection \<Rightarrow> connection_end \<Rightarrow> bool" where
  "is_threadless_of c e \<longleftrightarrow>
     type_name (conn_type c) \<in> set [''seL4DTBHardwareThreadless'', ''seL4DTBHWThreadless''] \<and>
     inst_ref (end_instance e) \<in> set (map (\<lambda>to_end. inst_ref (end_instance to_end)) (to_ends c))"

text \<open>The loop \<open>for c in composition.connections\<close> with the final \<open>raise\<close> (lines 562 to 588).\<close>

fun connections_loop ::
  "(string \<Rightarrow> bool) \<Rightarrow> nat \<Rightarrow> string \<Rightarrow> configuration \<Rightarrow> connection_end \<Rightarrow> int \<Rightarrow> int \<Rightarrow>
   connection list \<Rightarrow> nat \<Rightarrow> error + badges" where
  "connections_loop is_arch_arm badge_bits arch cfg e base msk [] next_badge =
     Inl (CouldntAllocateNotificationBadge (end_str e))"
| "connections_loop is_arch_arm badge_bits arch cfg e base msk (c # cs) next_badge =
     bind (if is_threadless_of c e
           then threadless_loop is_arch_arm badge_bits arch cfg e base msk (to_ends c) next_badge
           else Inr (Continue next_badge)) (\<lambda>r1.
     case r1 of
       Return irq_badges \<Rightarrow> Inr (Badges irq_badges)
     | Continue next_badge1 \<Rightarrow>
     bind (if attribute_default c ''from_global_endpoint''
           then endpoint_loop badge_bits e base msk (from_ends c) next_badge1
           else Inr (Continue next_badge1)) (\<lambda>r2.
     case r2 of
       Return b \<Rightarrow> Inr (Badge b)
     | Continue next_badge2 \<Rightarrow>
     bind (if attribute_default c ''to_global_endpoint''
           then endpoint_loop badge_bits e base msk (to_ends c) next_badge2
           else Inr (Continue next_badge2)) (\<lambda>r3.
     case r3 of
       Return b \<Rightarrow> Inr (Badge b)
     | Continue next_badge3 \<Rightarrow>
         connections_loop is_arch_arm badge_bits arch cfg e base msk cs next_badge3)))"

text \<open>The configured base and mask of the notification allocator (lines 557 to 559).\<close>

definition global_endpoint_base :: "configuration \<Rightarrow> connection_end \<Rightarrow> int" where
  "global_endpoint_base cfg e =
     (case setting_int cfg (name (end_instance e)) ''global_endpoint_base'' of
        None \<Rightarrow> 1 | Some b \<Rightarrow> b)"

definition global_endpoint_mask :: "nat \<Rightarrow> configuration \<Rightarrow> connection_end \<Rightarrow> int" where
  "global_endpoint_mask badge_bits cfg e =
     (case setting_int cfg (name (end_instance e)) ''global_endpoint_mask'' of
        None \<Rightarrow> (2 ^ badge_bits - 1) AND NOT (global_endpoint_base cfg e)
      | Some m \<Rightarrow> m)"

definition global_endpoint_badges ::
  "(string \<Rightarrow> bool) \<Rightarrow> nat \<Rightarrow> composition \<Rightarrow> connection_end \<Rightarrow> configuration \<Rightarrow> string \<Rightarrow>
   error + badges" where
  "global_endpoint_badges is_arch_arm badge_bits composition e cfg arch =
     (let base = global_endpoint_base cfg e;
          msk = global_endpoint_mask badge_bits cfg e
      in bind (set_next_badge badge_bits (end_str e) 0 msk)
           (connections_loop is_arch_arm badge_bits arch cfg e base msk (connections composition)))"

section \<open>RPC endpoint badge allocator\<close>

text \<open>
  \<open>set_next_badge\<close> of \<open>global_rpc_endpoint_badges\<close> (source lines 610 to 618). The
  cursor starts at 1 and only grows, so it is a natural number.
\<close>

function rpc_set_next_badge :: "nat \<Rightarrow> string \<Rightarrow> nat \<Rightarrow> int \<Rightarrow> error + nat" where
  "rpc_set_next_badge badge_bits e next_badge msk =
     (if int next_badge \<ge> min (2 ^ badge_bits) msk then Inl (CouldntAllocateEndpointBadge e)
      else if \<not> (int next_badge AND msk = int next_badge)
           then rpc_set_next_badge badge_bits e
                  (nat (NOT msk AND int next_badge) + next_badge) msk
           else Inr next_badge)"
  by pat_completeness auto
termination
proof (relation "measure (\<lambda>(badge_bits, e, next_badge, msk). 2 ^ badge_bits - next_badge)")
  fix badge_bits :: nat and e :: string and next_badge :: nat and msk :: int
  assume lt: "\<not> min (2 ^ badge_bits) msk \<le> int next_badge"
    and out: "\<not> int next_badge AND msk = int next_badge"
  have "NOT msk AND int next_badge \<noteq> 0"
  proof
    assume z: "NOT msk AND int next_badge = 0"
    have "int next_badge AND msk = int next_badge"
    proof (rule bit_eqI)
      fix n
      from z have "\<not> bit (NOT msk AND int next_badge) n" by simp
      then show "bit (int next_badge AND msk) n = bit (int next_badge) n"
        by (auto simp: bit_and_iff bit_not_iff)
    qed
    with out show False by simp
  qed
  moreover have "0 \<le> NOT msk AND int next_badge" by simp
  ultimately have "0 < nat (NOT msk AND int next_badge)" by linarith
  moreover from lt have "next_badge < 2 ^ badge_bits"
    by (simp add: min_le_iff_disj not_le flip: of_nat_less_iff)
  ultimately show
    "((badge_bits, e, nat (NOT msk AND int next_badge) + next_badge, msk),
      (badge_bits, e, next_badge, msk))
     \<in> measure (\<lambda>(badge_bits, e, next_badge, msk). 2 ^ badge_bits - next_badge)"
    by simp
qed simp

declare rpc_set_next_badge.simps [simp del]

text \<open>The loop \<open>for i2 in c.to_ends\<close> and the loop \<open>for i2 in c.from_ends\<close> (lines 630 to 632).\<close>

fun rpc_badges_loop ::
  "nat \<Rightarrow> string \<Rightarrow> int \<Rightarrow> int \<Rightarrow> connection_end list \<Rightarrow> nat \<Rightarrow> error + (int list \<times> nat)" where
  "rpc_badges_loop badge_bits e base msk [] next_badge = Inr ([], next_badge)"
| "rpc_badges_loop badge_bits e base msk (i2 # rest) next_badge =
     bind (rpc_set_next_badge badge_bits e (next_badge + 1) msk) (\<lambda>next_badge1.
     bind (rpc_badges_loop badge_bits e base msk rest next_badge1) (\<lambda>(bs, next_badge2).
     Inr ((int next_badge OR base) # bs, next_badge2)))"

text \<open>
  The loop \<open>for i in c.from_ends\<close> and the loop \<open>for i in c.to_ends\<close> (lines 628 to 635);
  \<open>peers\<close> are the ends of the other side. \<open>badges\<close> is empty whenever the inner loop
  starts, so the list it builds is the one returned.
\<close>

fun rpc_ends_loop ::
  "nat \<Rightarrow> connection_end \<Rightarrow> int \<Rightarrow> int \<Rightarrow> connection_end list \<Rightarrow> connection_end list \<Rightarrow> nat \<Rightarrow>
   error + (int list, nat) flow" where
  "rpc_ends_loop badge_bits e base msk peers [] next_badge = Inr (Continue next_badge)"
| "rpc_ends_loop badge_bits e base msk peers (i # rest) next_badge =
     (if inst_ref (end_instance i) = inst_ref (end_instance e)
      then bind (rpc_badges_loop badge_bits (end_str e) base msk peers next_badge)
             (\<lambda>(badges, next_badge1).
                if end_ref e = end_ref i then Inr (Return badges)
                else rpc_ends_loop badge_bits e base msk peers rest next_badge1)
      else rpc_ends_loop badge_bits e base msk peers rest next_badge)"

text \<open>The loop \<open>for c in composition.connections\<close> with the final \<open>raise\<close> (lines 626 to 646).\<close>

fun rpc_connections_loop ::
  "nat \<Rightarrow> connection_end \<Rightarrow> int \<Rightarrow> int \<Rightarrow> connection list \<Rightarrow> nat \<Rightarrow> error + int list" where
  "rpc_connections_loop badge_bits e base msk [] next_badge =
     Inl (CouldntAllocateNotificationBadge (end_str e))"
| "rpc_connections_loop badge_bits e base msk (c # cs) next_badge =
     bind (if attribute_default c ''from_global_rpc_endpoint''
           then rpc_ends_loop badge_bits e base msk (to_ends c) (from_ends c) next_badge
           else Inr (Continue next_badge)) (\<lambda>r1.
     case r1 of
       Return badges \<Rightarrow> Inr badges
     | Continue next_badge1 \<Rightarrow>
     bind (if attribute_default c ''to_global_rpc_endpoint''
           then rpc_ends_loop badge_bits e base msk (from_ends c) (to_ends c) next_badge1
           else Inr (Continue next_badge1)) (\<lambda>r2.
     case r2 of
       Return badges \<Rightarrow> Inr badges
     | Continue next_badge2 \<Rightarrow> rpc_connections_loop badge_bits e base msk cs next_badge2))"

text \<open>The configured base and mask of the RPC allocator (lines 621 to 623).\<close>

definition global_rpc_endpoint_base :: "configuration \<Rightarrow> connection_end \<Rightarrow> int" where
  "global_rpc_endpoint_base cfg e =
     (case setting_int cfg (name (end_instance e)) ''global_rpc_endpoint_base'' of
        None \<Rightarrow> 0 | Some b \<Rightarrow> b)"

definition global_rpc_endpoint_mask :: "nat \<Rightarrow> configuration \<Rightarrow> connection_end \<Rightarrow> int" where
  "global_rpc_endpoint_mask badge_bits cfg e =
     (case setting_int cfg (name (end_instance e)) ''global_rpc_endpoint_mask'' of
        None \<Rightarrow> 2 ^ badge_bits - 2 | Some m \<Rightarrow> m)"

definition global_rpc_endpoint_badges ::
  "nat \<Rightarrow> composition \<Rightarrow> connection_end \<Rightarrow> configuration \<Rightarrow> error + int list" where
  "global_rpc_endpoint_badges badge_bits composition e cfg =
     (let base = global_rpc_endpoint_base cfg e;
          msk = global_rpc_endpoint_mask badge_bits cfg e
      in bind (rpc_set_next_badge badge_bits (end_str e) 1 msk)
           (rpc_connections_loop badge_bits e base msk (connections composition)))"

section \<open>VirtQueue client ID allocator\<close>






section \<open>Group label canonicalizer\<close>

text \<open>
  \<open>group_labels\<close> is a Python dictionary: an association list whose update keeps the
  position of an existing key and appends a new one (\<open>AList.update\<close>), read with
  \<open>map_of\<close>.
\<close>

type_synonym group_labels = "(string \<times> string) list"

text \<open>The \<open>while\<close> loop of \<open>get_canonical_label\<close> (source lines 495 to 501).\<close>

function canonical_loop :: "group_labels \<Rightarrow> string \<Rightarrow> string list \<Rightarrow> error + string" where
  "canonical_loop group_labels grp seen =
     (case map_of group_labels grp of
        None \<Rightarrow> Inr grp
      | Some grp1 \<Rightarrow>
          if grp1 \<in> set seen then Inl (TemplateError (CycleInGroupLabelling seen))
          else canonical_loop group_labels grp1 (seen @ [grp1]))"
  by pat_completeness auto
termination
proof (relation "measure (\<lambda>(group_labels, grp, seen). card (snd ` set group_labels - set seen))")
  fix group_labels :: group_labels and grp :: string and seen :: "string list"
    and grp1 :: string
  assume "map_of group_labels grp = Some grp1" and "grp1 \<notin> set seen"
  then have mem: "grp1 \<in> snd ` set group_labels - set seen"
    by (force dest: map_of_SomeD)
  have eq: "snd ` set group_labels - set (seen @ [grp1])
      = (snd ` set group_labels - set seen) - {grp1}"
    by auto
  have "card (snd ` set group_labels - set (seen @ [grp1]))
      < card (snd ` set group_labels - set seen)"
    by (simp only: eq) (rule card_Diff1_less [OF _ mem], simp)
  then show "((group_labels, grp1, seen @ [grp1]), (group_labels, grp, seen))
      \<in> measure (\<lambda>(group_labels, grp, seen). card (snd ` set group_labels - set seen))"
    by simp
qed simp

declare canonical_loop.simps [simp del]

definition get_canonical_label :: "group_labels \<Rightarrow> string \<Rightarrow> error + string" where
  "get_canonical_label group_labels l = canonical_loop group_labels l [l]"

text \<open>Step 1, groups (lines 506 to 508).\<close>

fun groups_loop :: "group_labels \<Rightarrow> component_instance list \<Rightarrow> error + group_labels" where
  "groups_loop group_labels [] = Inr group_labels"
| "groups_loop group_labels (c # cs) =
     (if address_space c \<noteq> name c
      then bind (get_canonical_label group_labels (address_space c)) (\<lambda>g.
             groups_loop (AList.update (name c) g group_labels) cs)
      else groups_loop group_labels cs)"

text \<open>Step 2, direct configuration (lines 511 to 514).\<close>

fun configured_loop ::
  "configuration \<Rightarrow> group_labels \<Rightarrow> component_instance list \<Rightarrow> error + group_labels" where
  "configured_loop cfg group_labels [] = Inr group_labels"
| "configured_loop cfg group_labels (c # cs) =
     (case integrity_label cfg (name c) of
        None \<Rightarrow> configured_loop cfg group_labels cs
      | Some l \<Rightarrow>
          bind (get_canonical_label group_labels l) (\<lambda>g.
            configured_loop cfg (AList.update (name c) g group_labels) cs))"

text \<open>
  Step 3, internal connections (lines 517 to 521). The set \<open>groups\<close> has one element
  exactly when the list of labels without its duplicates has one.
\<close>

fun internal_loop :: "group_labels \<Rightarrow> connection list \<Rightarrow> error + group_labels" where
  "internal_loop group_labels [] = Inr group_labels"
| "internal_loop group_labels (conn # conns) =
     bind (for_each (\<lambda>e. get_canonical_label group_labels (name (end_instance e)))
             (from_ends conn @ to_ends conn)) (\<lambda>groups.
     case remdups groups of
       [g] \<Rightarrow> internal_loop (AList.update (conn_name conn) g group_labels) conns
     | _ \<Rightarrow> internal_loop group_labels conns)"

text \<open>The dictionary comprehension of lines 523 to 526.\<close>

definition canonical_items :: "group_labels \<Rightarrow> error + group_labels" where
  "canonical_items group_labels =
     for_each (\<lambda>(c, group). bind (get_canonical_label group_labels group) (\<lambda>g. Inr (c, g)))
       group_labels"

definition integrity_group_labels :: "composition \<Rightarrow> configuration \<Rightarrow> error + group_labels" where
  "integrity_group_labels composition cfg =
     bind (groups_loop [] (instances composition)) (\<lambda>group_labels1.
     bind (configured_loop cfg group_labels1 (instances composition)) (\<lambda>group_labels2.
     bind (internal_loop group_labels2 (connections composition)) canonical_items))"

section \<open>The same graph at other addresses\<close>

text \<open>
  Two invocations of an allocator, in one process or in two, are given the same graph,
  but the objects of the graph need not sit at the same addresses: the references of
  the instances are moved by \<open>at_i\<close> and those of the ends by \<open>at_e\<close>, and every
  other field is kept.
\<close>

definition relocate_instance :: "(nat \<Rightarrow> nat) \<Rightarrow> component_instance \<Rightarrow> component_instance" where
  "relocate_instance at_i i = i\<lparr>inst_ref := at_i (inst_ref i)\<rparr>"

definition relocate_end ::
  "(nat \<Rightarrow> nat) \<Rightarrow> (nat \<Rightarrow> nat) \<Rightarrow> connection_end \<Rightarrow> connection_end" where
  "relocate_end at_i at_e e =
     e\<lparr>end_ref := at_e (end_ref e),
       end_instance := relocate_instance at_i (end_instance e)\<rparr>"

definition relocate_connection ::
  "(nat \<Rightarrow> nat) \<Rightarrow> (nat \<Rightarrow> nat) \<Rightarrow> connection \<Rightarrow> connection" where
  "relocate_connection at_i at_e c =
     c\<lparr>from_ends := map (relocate_end at_i at_e) (from_ends c),
       to_ends := map (relocate_end at_i at_e) (to_ends c)\<rparr>"

definition relocate_composition ::
  "(nat \<Rightarrow> nat) \<Rightarrow> (nat \<Rightarrow> nat) \<Rightarrow> composition \<Rightarrow> composition" where
  "relocate_composition at_i at_e composition =
     \<lparr>instances = map (relocate_instance at_i) (instances composition),
      connections = map (relocate_connection at_i at_e) (connections composition)\<rparr>"

section \<open>Badge ranges\<close>

text \<open>
  The badges an allocator can still hand out from a cursor position, and those it has
  handed out below one: a cursor value \<open>r\<close> contained in the mask gives the badge
  \<open>r | base\<close>. Two sets of badges are separated when some cursor position has one of
  them below it and the other one at or above it. \<open>flow_lower\<close> and \<open>flow_pair\<close>
  describe one pass over a list of ends or connections: either it returns badges, or it
  goes on with a cursor; two passes for two ends of the same instance go on with the
  same cursor until one of them returns.
\<close>

definition badges_from :: "int \<Rightarrow> int \<Rightarrow> nat \<Rightarrow> int set" where
  "badges_from base msk lo = (\<lambda>r. int r OR base) ` {r. lo \<le> r \<and> int r AND msk = int r}"

definition badges_below :: "int \<Rightarrow> int \<Rightarrow> nat \<Rightarrow> int set" where
  "badges_below base msk hi = (\<lambda>r. int r OR base) ` {r. r < hi \<and> int r AND msk = int r}"

definition separated :: "int \<Rightarrow> int \<Rightarrow> int set \<Rightarrow> int set \<Rightarrow> bool" where
  "separated base msk X Y \<longleftrightarrow>
     (\<exists>hi. X \<subseteq> badges_below base msk hi \<and> Y \<subseteq> badges_from base msk hi) \<or>
     (\<exists>hi. Y \<subseteq> badges_below base msk hi \<and> X \<subseteq> badges_from base msk hi)"

fun badge_values :: "badges \<Rightarrow> int set" where
  "badge_values (Badge b) = {b}"
| "badge_values (Badges bs) = set bs"

fun flow_lower ::
  "int \<Rightarrow> int \<Rightarrow> ('a \<Rightarrow> int set) \<Rightarrow> (nat \<Rightarrow> bool) \<Rightarrow> nat \<Rightarrow> ('a, nat) flow \<Rightarrow> bool" where
  "flow_lower base msk V ok nb (Return x) \<longleftrightarrow> V x \<subseteq> badges_from base msk nb"
| "flow_lower base msk V ok nb (Continue n) \<longleftrightarrow> ok n \<and> nb \<le> n"

fun flow_pair ::
  "int \<Rightarrow> int \<Rightarrow> ('a \<Rightarrow> int set) \<Rightarrow> ('a, nat) flow \<Rightarrow> ('a, nat) flow \<Rightarrow> bool" where
  "flow_pair base msk V (Continue a) (Continue b) \<longleftrightarrow> a = b"
| "flow_pair base msk V (Return x) (Continue b) \<longleftrightarrow> V x \<subseteq> badges_below base msk b"
| "flow_pair base msk V (Continue a) (Return y) \<longleftrightarrow> V y \<subseteq> badges_below base msk a"
| "flow_pair base msk V (Return x) (Return y) \<longleftrightarrow> separated base msk (V x) (V y)"

definition power_in :: "int \<Rightarrow> nat \<Rightarrow> bool" where
  "power_in msk n \<longleftrightarrow> (\<exists>j. n = 2 ^ j) \<and> int n AND msk \<noteq> 0"

definition within :: "nat \<Rightarrow> int \<Rightarrow> nat \<Rightarrow> bool" where
  "within badge_bits msk n \<longleftrightarrow> int n AND msk = int n \<and> int n < min (2 ^ badge_bits) msk"

section \<open>Concrete compositions\<close>

text \<open>
  Small graphs and configurations on which the allocators are run below: a
  configuration holding only integer settings, an instance in its own address space,
  an end of an instance, and a connector type whose listed attributes default to true.
\<close>

definition settings :: "((string \<times> string) \<times> int) list \<Rightarrow> configuration" where
  "settings kvs =
     \<lparr>setting_int = (\<lambda>scope key. map_of kvs (scope, key)),
      generate_interrupts = (\<lambda>scope. False),
      dtb_query = (\<lambda>scope. None),
      integrity_label = (\<lambda>scope. None)\<rparr>"

definition component :: "nat \<Rightarrow> string \<Rightarrow> component_instance" where
  "component r n = \<lparr>inst_ref = r, name = n, address_space = n\<rparr>"

definition end_of :: "nat \<Rightarrow> component_instance \<Rightarrow> string \<Rightarrow> connection_end" where
  "end_of r i f =
     \<lparr>end_ref = r, end_instance = i, interface_name = f, end_str = name i @ ''.'' @ f\<rparr>"

definition connector :: "string \<Rightarrow> string list \<Rightarrow> connector_type" where
  "connector n attrs =
     \<lparr>type_name = n, get_attribute = (\<lambda>a. if a \<in> set attrs then Some True else None)\<rparr>"

definition rpc_composition :: composition where
  "rpc_composition =
     \<lparr>instances = [component 0 ''server'', component 1 ''a'', component 2 ''b'',
                   component 3 ''c''],
      connections =
        [\<lparr>conn_name = ''conn'',
          conn_type = connector ''seL4RPCCall'' [''to_global_rpc_endpoint''],
          from_ends = [end_of 11 (component 1 ''a'') ''out'',
                       end_of 12 (component 2 ''b'') ''out'',
                       end_of 13 (component 3 ''c'') ''out''],
          to_ends = [end_of 10 (component 0 ''server'') ''in'']\<rparr>]\<rparr>"

definition irq_composition :: composition where
  "irq_composition =
     \<lparr>instances = [component 0 ''driver''],
      connections =
        [\<lparr>conn_name = ''hw'',
          conn_type = connector ''seL4DTBHardwareThreadless'' [],
          from_ends = [end_of 20 (component 4 ''dummy'') ''src''],
          to_ends = [end_of 21 (component 0 ''driver'') ''dev'']\<rparr>]\<rparr>"

definition irq_configuration :: configuration where
  "irq_configuration =
     (settings [])
       \<lparr>generate_interrupts := (\<lambda>scope. scope = ''driver.dev''),
        dtb_query := (\<lambda>scope.
          if scope = ''driver.dev''
          then Some (Some [\<lparr>interrupts = Some [CInt 0, CInt 5, CInt 4, CInt 0, CInt 6, CInt 4],
                            interrupts_extended = None\<rparr>])
          else None)\<rparr>"

definition notification_composition :: composition where
  "notification_composition =
     \<lparr>instances = [component 0 ''server'', component 1 ''a''],
      connections =
        [\<lparr>conn_name = ''conn'',
          conn_type = connector ''seL4GlobalAsynch'' [''to_global_endpoint''],
          from_ends = [end_of 11 (component 1 ''a'') ''out''],
          to_ends = [end_of 10 (component 0 ''server'') ''in'']\<rparr>]\<rparr>"

definition labels_composition :: composition where
  "labels_composition =
     \<lparr>instances = [\<lparr>inst_ref = 0, name = ''a'', address_space = ''grp''\<rparr>,
                   component 1 ''b'', component 2 ''c''],
      connections =
        [\<lparr>conn_name = ''inside'',
          conn_type = connector ''seL4RPCCall'' [],
          from_ends = [end_of 10 \<lparr>inst_ref = 0, name = ''a'', address_space = ''grp''\<rparr> ''x''],
          to_ends = [end_of 11 (component 1 ''b'') ''y'']\<rparr>,
         \<lparr>conn_name = ''outside'',
          conn_type = connector ''seL4RPCCall'' [],
          from_ends = [end_of 12 \<lparr>inst_ref = 0, name = ''a'', address_space = ''grp''\<rparr> ''z''],
          to_ends = [end_of 13 (component 2 ''c'') ''w'']\<rparr>]\<rparr>"

definition labels_configuration :: configuration where
  "labels_configuration =
     (settings [])\<lparr>integrity_label := (\<lambda>n. if n = ''b'' then Some ''grp'' else None)\<rparr>"


definition notification_pair_composition :: composition where
  "notification_pair_composition =
     \<lparr>instances = [component 0 ''server'', component 1 ''a'', component 2 ''b''],
      connections =
        [\<lparr>conn_name = ''first'',
          conn_type = connector ''seL4GlobalAsynch'' [''to_global_endpoint''],
          from_ends = [end_of 11 (component 1 ''a'') ''out''],
          to_ends = [end_of 10 (component 0 ''server'') ''in1'']\<rparr>,
         \<lparr>conn_name = ''second'',
          conn_type = connector ''seL4GlobalAsynch'' [''to_global_endpoint''],
          from_ends = [end_of 13 (component 2 ''b'') ''out''],
          to_ends = [end_of 12 (component 0 ''server'') ''in2'']\<rparr>]\<rparr>"

definition rpc_pair_composition :: composition where
  "rpc_pair_composition =
     \<lparr>instances = [component 0 ''server'', component 1 ''a'', component 2 ''b'',
                   component 3 ''c''],
      connections =
        [\<lparr>conn_name = ''first'',
          conn_type = connector ''seL4RPCCall'' [''to_global_rpc_endpoint''],
          from_ends = [end_of 11 (component 1 ''a'') ''out'',
                       end_of 12 (component 2 ''b'') ''out'',
                       end_of 13 (component 3 ''c'') ''out''],
          to_ends = [end_of 10 (component 0 ''server'') ''in1'']\<rparr>,
         \<lparr>conn_name = ''second'',
          conn_type = connector ''seL4RPCCall'' [''to_global_rpc_endpoint''],
          from_ends = [end_of 15 (component 1 ''a'') ''out2'',
                       end_of 16 (component 2 ''b'') ''out2''],
          to_ends = [end_of 14 (component 0 ''server'') ''in2'']\<rparr>]\<rparr>"

section \<open>Exceptions and iteration\<close>

lemma bind_eq_Inr_iff: "bind m f = Inr y \<longleftrightarrow> (\<exists>x. m = Inr x \<and> f x = Inr y)"
  by (cases m) simp_all

lemma bind_eq_Inl_iff: "bind m f = Inl e \<longleftrightarrow> m = Inl e \<or> (\<exists>x. m = Inr x \<and> f x = Inl e)"
  by (cases m) simp_all

lemma for_each_length: "for_each f xs = Inr ys \<Longrightarrow> length ys = length xs"
  by (induction xs arbitrary: ys) (auto simp: bind_eq_Inr_iff)

lemma for_each_cong_set:
  "(\<And>x. x \<in> set xs \<Longrightarrow> f x = g x) \<Longrightarrow> for_each f xs = for_each g xs"
  by (induction xs) simp_all

lemma for_each_error: "for_each f xs = Inl e \<Longrightarrow> \<exists>x \<in> set xs. f x = Inl e"
  by (induction xs) (auto simp: bind_eq_Inl_iff)

section \<open>The interrupt descriptor parser on ARM\<close>

lemma arm_interrupt_error:
  "arm_interrupt ext xs i = Inl e \<Longrightarrow> e = IndexError \<or> (\<exists>t. e = TypeError t)"
  by (auto simp: arm_interrupt_def bind_eq_Inl_iff subscript_def
      elim: add32.elims less4.elims split: if_splits)

lemma parse_arm_error:
  "parse_arm ext xs m = Inl e \<Longrightarrow> e = IndexError \<or> (\<exists>t. e = TypeError t)"
  by (auto simp: parse_arm_def Let_def split: if_splits
      dest!: for_each_error arm_interrupt_error)

lemma parse_arm_length:
  "parse_arm ext xs m = Inr ds \<Longrightarrow>
     length ds = (if ext then length xs div 4 else length xs div 3)"
  by (auto simp: parse_arm_def Let_def split: if_splits dest!: for_each_length)

lemma arm_interrupt_append:
  assumes "(if ext then i * 3 + 3 else i * 3 + 2) < length xs"
  shows "arm_interrupt ext (xs @ ys) i = arm_interrupt ext xs i"
  using assms by (auto simp: arm_interrupt_def subscript_def nth_append)

lemma parse_arm_trailing:
  assumes "length xs mod (if ext then 4 else 3) = 0" "length ys < (if ext then 4 else 3)"
  shows "parse_arm ext (xs @ ys) m = parse_arm ext xs m"
proof -
  let ?w = "if ext then 4 else 3 :: nat"
  have num: "(length xs + length ys) div ?w = length xs div ?w"
    using assms by (auto simp: div_add1_eq split: if_splits)
  have "for_each (arm_interrupt ext (xs @ ys)) [0..<length xs div ?w]
      = for_each (arm_interrupt ext xs) [0..<length xs div ?w]"
  proof (rule for_each_cong_set)
    fix i assume "i \<in> set [0..<length xs div ?w]"
    then have "i < length xs div ?w" by simp
    then have "(if ext then i * 3 + 3 else i * 3 + 2) < length xs"
      by (auto split: if_splits)
    then show "arm_interrupt ext (xs @ ys) i = arm_interrupt ext xs i"
      by (rule arm_interrupt_append)
  qed
  with num show ?thesis
    by (auto simp: parse_arm_def Let_def split: if_splits)
qed

text \<open>
  Claim C5. On an ARM architecture tag with \<open>max_num_interrupts = -1\<close>, the list
  \<open>[0, 5, 2]\<close> parses to the single descriptor \<open>{irq: 37, trigger: 1}\<close> and the list
  \<open>[0, 5, 4]\<close> to the single descriptor \<open>{irq: 37, trigger: 0}\<close>: the SPI field is 0,
  so 32 is added to the id 5, and the trigger is 1 exactly when the flags are below 4.
\<close>

theorem parse_arm_spi_examples:
  "is_arch_arm arch \<Longrightarrow>
     parse_dtb_node_interrupts is_arch_arm
       \<lparr>interrupts = Some [CInt 0, CInt 5, CInt 2], interrupts_extended = ext\<rparr> (-1) arch
       = Inr [\<lparr>irq = CInt 37, trigger = 1\<rparr>] \<and>
     parse_dtb_node_interrupts is_arch_arm
       \<lparr>interrupts = Some [CInt 0, CInt 5, CInt 4], interrupts_extended = ext\<rparr> (-1) arch
       = Inr [\<lparr>irq = CInt 37, trigger = 0\<rparr>]"
  by (simp add: parse_dtb_node_interrupts_def parse_arm_def arm_interrupt_def subscript_def)

theorem parse_arm_spi_examples_witness:
  "(\<lambda>a. a = ''aarch32'') ''aarch32'' \<and>
     parse_dtb_node_interrupts (\<lambda>a. a = ''aarch32'')
       \<lparr>interrupts = Some [CInt 0, CInt 5, CInt 2], interrupts_extended = None\<rparr>
       (-1) ''aarch32''
       = Inr [\<lparr>irq = CInt 37, trigger = 1\<rparr>] \<and>
     parse_dtb_node_interrupts (\<lambda>a. a = ''aarch32'')
       \<lparr>interrupts = Some [CInt 0, CInt 5, CInt 4], interrupts_extended = None\<rparr>
       (-1) ''aarch32''
       = Inr [\<lparr>irq = CInt 37, trigger = 0\<rparr>]"
  using parse_arm_spi_examples [of "\<lambda>a. a = ''aarch32''" "''aarch32''" None] by simp

text \<open>
  Claim C10. On an ARM architecture tag the parser never raises the malformed-list
  error (\<open>Found {} values, but expecting {} per interrupt\<close>) nor the malformed-value
  error (\<open>... is not a number\<close>). The number of descriptors is the length of the list
  divided by 3, or by 4 in the extended form, rounded down; values after a whole
  multiple of that width change nothing; and a cell that is not an integer is not
  rejected: an id that is a string, next to an SPI field other than 0, is copied into
  the descriptor.
\<close>

theorem arm_branch_never_malformed:
  assumes arm: "is_arch_arm arch"
  shows
    "(\<forall>n c. parse_dtb_node_interrupts is_arch_arm node m arch
              \<noteq> Inl (TemplateError (FoundValuesButExpecting n c))) \<and>
     (\<forall>i n c idx nm v. parse_dtb_node_interrupts is_arch_arm node m arch
              \<noteq> Inl (TemplateError (IsNotANumber i n c idx nm v))) \<and>
     (\<forall>ds. parse_dtb_node_interrupts is_arch_arm node m arch = Inr ds \<longrightarrow>
        length ds = (case interrupts node of
                       Some xs \<Rightarrow> length xs div 3
                     | None \<Rightarrow> (case interrupts_extended node of
                                  Some xs \<Rightarrow> length xs div 4
                                | None \<Rightarrow> 0))) \<and>
     (\<forall>xs ys. interrupts node = Some (xs @ ys) \<and> length xs mod 3 = 0 \<and> length ys < 3 \<longrightarrow>
        parse_dtb_node_interrupts is_arch_arm node m arch
        = parse_dtb_node_interrupts is_arch_arm (node\<lparr>interrupts := Some xs\<rparr>) m arch) \<and>
     (\<forall>xs ys. interrupts node = None \<and> interrupts_extended node = Some (xs @ ys) \<and>
        length xs mod 4 = 0 \<and> length ys < 4 \<longrightarrow>
        parse_dtb_node_interrupts is_arch_arm node m arch
        = parse_dtb_node_interrupts is_arch_arm (node\<lparr>interrupts_extended := Some xs\<rparr>) m arch) \<and>
     (\<forall>s. interrupts node = Some [CInt 1, CStr s, CInt 2] \<and> (m = -1 \<or> 1 \<le> m) \<longrightarrow>
        parse_dtb_node_interrupts is_arch_arm node m arch
        = Inr [\<lparr>irq = CStr s, trigger = 1\<rparr>])"
proof (intro conjI allI impI)
  fix n c
  show "parse_dtb_node_interrupts is_arch_arm node m arch
          \<noteq> Inl (TemplateError (FoundValuesButExpecting n c))"
    using arm by (auto simp: parse_dtb_node_interrupts_def split: option.splits
        dest: parse_arm_error)
next
  fix i n c idx nm v
  show "parse_dtb_node_interrupts is_arch_arm node m arch
          \<noteq> Inl (TemplateError (IsNotANumber i n c idx nm v))"
    using arm by (auto simp: parse_dtb_node_interrupts_def split: option.splits
        dest: parse_arm_error)
next
  fix ds
  assume "parse_dtb_node_interrupts is_arch_arm node m arch = Inr ds"
  with arm show "length ds = (case interrupts node of
                       Some xs \<Rightarrow> length xs div 3
                     | None \<Rightarrow> (case interrupts_extended node of
                                  Some xs \<Rightarrow> length xs div 4
                                | None \<Rightarrow> 0))"
    by (auto simp: parse_dtb_node_interrupts_def split: option.splits
        dest: parse_arm_length)
next
  fix xs ys
  assume "interrupts node = Some (xs @ ys) \<and> length xs mod 3 = 0 \<and> length ys < 3"
  with arm show "parse_dtb_node_interrupts is_arch_arm node m arch
        = parse_dtb_node_interrupts is_arch_arm (node\<lparr>interrupts := Some xs\<rparr>) m arch"
    using parse_arm_trailing [of xs False ys m]
    by (simp add: parse_dtb_node_interrupts_def)
next
  fix xs ys
  assume "interrupts node = None \<and> interrupts_extended node = Some (xs @ ys) \<and>
        length xs mod 4 = 0 \<and> length ys < 4"
  with arm show "parse_dtb_node_interrupts is_arch_arm node m arch
        = parse_dtb_node_interrupts is_arch_arm (node\<lparr>interrupts_extended := Some xs\<rparr>) m arch"
    using parse_arm_trailing [of xs True ys m]
    by (simp add: parse_dtb_node_interrupts_def)
next
  fix s
  assume "interrupts node = Some [CInt 1, CStr s, CInt 2] \<and> (m = -1 \<or> 1 \<le> m)"
  with arm show "parse_dtb_node_interrupts is_arch_arm node m arch
        = Inr [\<lparr>irq = CStr s, trigger = 1\<rparr>]"
    by (auto simp: parse_dtb_node_interrupts_def parse_arm_def arm_interrupt_def subscript_def)
qed

theorem arm_branch_never_malformed_witness:
  "(\<lambda>a. a = ''aarch32'') ''aarch32'' \<and>
   parse_dtb_node_interrupts (\<lambda>a. a = ''aarch32'')
     \<lparr>interrupts = Some [CInt 1, CStr ''gic'', CInt 2, CInt 7, CStr ''x''],
      interrupts_extended = None\<rparr> (-1) ''aarch32''
   = Inr [\<lparr>irq = CStr ''gic'', trigger = 1\<rparr>]"
proof -
  let ?p = "\<lambda>a. a = ''aarch32''"
  let ?long = "\<lparr>interrupts = Some ([CInt 1, CStr ''gic'', CInt 2] @ [CInt 7, CStr ''x'']),
      interrupts_extended = None\<rparr>"
  let ?short = "\<lparr>interrupts = Some [CInt 1, CStr ''gic'', CInt 2],
      interrupts_extended = None\<rparr>"
  have p: "?p ''aarch32''" by simp
  have "parse_dtb_node_interrupts ?p ?long (-1) ''aarch32''
      = parse_dtb_node_interrupts ?p (?long\<lparr>interrupts := Some [CInt 1, CStr ''gic'', CInt 2]\<rparr>)
          (-1) ''aarch32''"
    by (rule arm_branch_never_malformed [of ?p "''aarch32''" ?long "-1", OF p,
          THEN conjunct2, THEN conjunct2, THEN conjunct2, THEN conjunct1,
          THEN spec [where x = "[CInt 1, CStr ''gic'', CInt 2]"],
          THEN spec [where x = "[CInt 7, CStr ''x'']"], THEN mp]) simp
  moreover have "parse_dtb_node_interrupts ?p ?short (-1) ''aarch32''
      = Inr [\<lparr>irq = CStr ''gic'', trigger = 1\<rparr>]"
    by (rule arm_branch_never_malformed [of ?p "''aarch32''" ?short "-1", OF p,
          THEN conjunct2, THEN conjunct2, THEN conjunct2, THEN conjunct2, THEN conjunct2,
          THEN spec [where x = "''gic''"], THEN mp]) simp
  ultimately show ?thesis by simp
qed

text \<open>
  Claim C4. With two interrupts and \<open>max_num_interrupts = 1\<close> the generic branch
  raises the \<open>TemplateError\<close> that names the count and the maximum. The ARM branch
  does not: line 727 closes the parenthesis of \<open>TemplateError(...)\<close> before \<open>%\<close>, so
  the format operator is applied to the exception object and Python raises a
  \<open>TypeError\<close> instead of the \<open>TemplateError\<close> the line sets out to build.
\<close>

theorem parse_arm_too_many_raises_TypeError:
  "parse_dtb_node_interrupts (\<lambda>a. a = ''aarch32'')
     \<lparr>interrupts = Some [CInt 0, CInt 5, CInt 2, CInt 0, CInt 6, CInt 2],
      interrupts_extended = None\<rparr> 1 ''aarch32''
     = Inl (TypeError Unsupported_mod_TemplateError_int) \<and>
   parse_dtb_node_interrupts (\<lambda>a. a = ''aarch32'')
     \<lparr>interrupts = Some [CInt 0, CInt 5, CInt 2, CInt 0, CInt 6, CInt 2],
      interrupts_extended = None\<rparr> 1 ''riscv''
     = Inl (TemplateError (PeripheralHasInterrupts 2 1))"
  by (simp add: parse_dtb_node_interrupts_def parse_arm_def parse_generic_def)

section \<open>Cursor steps\<close>

lemma exp_and_mask:
  assumes "int (2 ^ k) AND msk \<noteq> 0"
  shows "int (2 ^ k) AND msk = int (2 ^ k)"
proof -
  from assms have "msk AND 2 ^ k \<noteq> 0" by (simp add: and.commute)
  then have b: "bit msk k" by (simp add: and_exp_eq_0_iff_not_bit)
  have "(2 ^ k :: int) AND msk = 2 ^ k"
    by (rule bit_eqI) (use b in \<open>auto simp: bit_and_iff bit_exp_iff\<close>)
  then show ?thesis by simp
qed

lemma set_next_badge_power:
  "set_next_badge badge_bits e nb msk = Inr r \<Longrightarrow> nb = 0 \<or> (\<exists>j. nb = 2 ^ j) \<Longrightarrow>
     (\<exists>k. r = 2 ^ k) \<and> nb < r \<and> int r AND msk \<noteq> 0"
proof (induction badge_bits e nb msk arbitrary: r rule: set_next_badge.induct)
  case (1 badge_bits e nb msk)
  let ?c = "if nb = 0 then 1 else push_bit 1 nb :: nat"
  from "1.prems"(1) have lt: "\<not> 2 ^ badge_bits \<le> nb"
    by (subst (asm) set_next_badge.simps) (auto split: if_splits)
  from "1.prems"(2) have c_pow: "\<exists>k. ?c = 2 ^ k"
  proof
    assume "nb = 0"
    then have "?c = 2 ^ 0" by simp
    then show ?thesis by blast
  next
    assume "\<exists>j. nb = 2 ^ j"
    then obtain j where "nb = 2 ^ j" by blast
    then have "?c = 2 ^ Suc j" by (simp add: push_bit_eq_mult)
    then show ?thesis by blast
  qed
  from "1.prems"(2) have c_gt: "nb < ?c" by (auto simp: push_bit_eq_mult)
  show ?case
  proof (cases "int ?c AND msk = 0")
    case True
    with "1.prems"(1) lt have "set_next_badge badge_bits e ?c msk = Inr r"
      by (subst (asm) set_next_badge.simps) (simp add: Let_def)
    from "1.IH" [OF lt refl True this] c_pow
    have "(\<exists>k. r = 2 ^ k) \<and> ?c < r \<and> int r AND msk \<noteq> 0" by blast
    with c_gt show ?thesis by auto
  next
    case False
    with "1.prems"(1) lt have "r = ?c"
      by (subst (asm) set_next_badge.simps) (simp add: Let_def)
    with False c_pow c_gt show ?thesis by auto
  qed
qed

lemma rpc_set_next_badge_result:
  "rpc_set_next_badge badge_bits e nb msk = Inr r \<Longrightarrow>
     nb \<le> r \<and> int r AND msk = int r \<and> int r < min (2 ^ badge_bits) msk"
proof (induction badge_bits e nb msk arbitrary: r rule: rpc_set_next_badge.induct)
  case (1 badge_bits e nb msk)
  from "1.prems" have lt: "\<not> min (2 ^ badge_bits) msk \<le> int nb"
    by (subst (asm) rpc_set_next_badge.simps) (auto split: if_splits)
  show ?case
  proof (cases "int nb AND msk = int nb")
    case True
    with "1.prems" lt have "r = nb"
      by (subst (asm) rpc_set_next_badge.simps) simp
    with True lt show ?thesis by (simp add: not_le)
  next
    case False
    with "1.prems" lt have
      "rpc_set_next_badge badge_bits e (nat (NOT msk AND int nb) + nb) msk = Inr r"
      by (subst (asm) rpc_set_next_badge.simps) simp
    from "1.IH" [OF lt False this] show ?thesis by auto
  qed
qed

lemma set_next_badge_within_width:
  assumes "set_next_badge badge_bits e nb msk = Inr r" "nb = 0 \<or> (\<exists>j. nb = 2 ^ j)"
    "0 \<le> msk" "msk < 2 ^ badge_bits"
  shows "r < 2 ^ badge_bits"
proof -
  from set_next_badge_power [OF assms(1,2)] obtain k where
    k: "r = 2 ^ k" and nz: "int r AND msk \<noteq> 0" by blast
  from nz have "int (2 ^ k) AND msk \<noteq> 0" unfolding k .
  then have "int (2 ^ k) AND msk = int (2 ^ k)" by (rule exp_and_mask)
  moreover have "int (2 ^ k) AND msk \<le> msk" using assms(3) by (rule AND_upper2)
  ultimately have "int (2 ^ k) < 2 ^ badge_bits" using assms(4) by linarith
  then have "int r < int (2 ^ badge_bits)" unfolding k by simp
  then show ?thesis by (simp only: of_nat_less_iff)
qed

text \<open>
  Claim C3. The cursor step fails when the value it is given, at the start of the step
  or of a repetition, has reached \<open>2 ^ badge_bits\<close>; the value after the shift is
  tested against the mask only. With 28 badge bits and the mask \<open>2 ^ 28\<close> the cursor
  therefore reaches \<open>2 ^ 28\<close> and the step returns it, from the cursor \<open>2 ^ 27\<close> and
  from the cursor 0, where the claim has it fail with the allocation-exhausted error.
\<close>

theorem set_next_badge_returns_beyond_width:
  "set_next_badge 28 ''server.in'' (2 ^ 27) (2 ^ 28) = Inr (2 ^ 28) \<and>
   set_next_badge 28 ''server.in'' 0 (2 ^ 28) = Inr (2 ^ 28)"
  by (simp add: set_next_badge.simps)

section \<open>Badges of one invocation\<close>

lemma or_base_inj:
  fixes a b base msk :: int
  assumes "base AND msk = 0" "a AND msk = a" "b AND msk = b" "a OR base = b OR base"
  shows "a = b"
proof -
  have "(a OR base) AND msk = (a AND msk) OR (base AND msk)"
    by (rule bit.conj_disj_distrib2)
  then have a: "(a OR base) AND msk = a" by (simp only: assms or.right_neutral)
  have "(b OR base) AND msk = (b AND msk) OR (base AND msk)"
    by (rule bit.conj_disj_distrib2)
  then have b: "(b OR base) AND msk = b" by (simp only: assms or.right_neutral)
  from a b assms(4) show ?thesis by metis
qed

lemma distinct_or_base:
  assumes "base AND msk = 0" "distinct raws" "\<forall>r\<in>set raws. int r AND msk = int r"
  shows "distinct (map (\<lambda>r. int r OR base) raws)"
proof -
  have "inj_on (\<lambda>r. int r OR base) (set raws)"
  proof (rule inj_onI)
    fix x y assume "x \<in> set raws" "y \<in> set raws" "int x OR base = int y OR base"
    with assms(1,3) have "int x = int y"
      by (intro or_base_inj [of base msk "int x" "int y"]) simp_all
    then show "x = y" by simp
  qed
  with assms(2) show ?thesis by (simp add: distinct_map)
qed

lemma irq_badges_loop_raws:
  "irq_badges_loop badge_bits e base msk irqs nb = Inr (bs, nb') \<Longrightarrow>
   (\<exists>j. nb = 2 ^ j) \<Longrightarrow> int nb AND msk \<noteq> 0 \<Longrightarrow>
     (\<exists>raws. bs = map (\<lambda>r. int r OR base) raws \<and> sorted_wrt (<) raws \<and>
        (\<forall>r\<in>set raws. nb \<le> r \<and> r < nb' \<and> int r AND msk = int r)) \<and>
     (\<exists>j. nb' = 2 ^ j) \<and> int nb' AND msk \<noteq> 0 \<and> nb \<le> nb' \<and> length bs = length irqs"
proof (induction irqs arbitrary: nb bs)
  case Nil
  then have "bs = map (\<lambda>r. int r OR base) []" "nb' = nb" by simp_all
  with Nil show ?case by auto
next
  case (Cons i irqs)
  from Cons.prems(1) obtain nb1 bs1 where
    step: "set_next_badge badge_bits e nb msk = Inr nb1" and
    rest: "irq_badges_loop badge_bits e base msk irqs nb1 = Inr (bs1, nb')" and
    bs: "bs = (int nb OR base) # bs1"
    by (auto simp: bind_eq_Inr_iff)
  from set_next_badge_power [OF step] Cons.prems(2)
  have nb1: "\<exists>k. nb1 = 2 ^ k" "nb < nb1" "int nb1 AND msk \<noteq> 0" by auto
  from Cons.IH [OF rest nb1(1) nb1(3)] obtain raws where
    raws: "bs1 = map (\<lambda>r. int r OR base) raws" "sorted_wrt (<) raws"
      "\<forall>r\<in>set raws. nb1 \<le> r \<and> r < nb' \<and> int r AND msk = int r" and
    nb': "\<exists>j. nb' = 2 ^ j" "int nb' AND msk \<noteq> 0" "nb1 \<le> nb'" "length bs1 = length irqs"
    by blast
  from Cons.prems(2,3) have inmask: "int nb AND msk = int nb"
    using exp_and_mask by blast
  have "bs = map (\<lambda>r. int r OR base) (nb # raws)" using bs raws(1) by simp
  moreover have "sorted_wrt (<) (nb # raws)" using raws(2,3) nb1(2) by auto
  moreover have "\<forall>r\<in>set (nb # raws). nb \<le> r \<and> r < nb' \<and> int r AND msk = int r"
    using raws(3) nb1(2) nb'(3) inmask by auto
  ultimately have A: "\<exists>raws. bs = map (\<lambda>r. int r OR base) raws \<and> sorted_wrt (<) raws \<and>
        (\<forall>r\<in>set raws. nb \<le> r \<and> r < nb' \<and> int r AND msk = int r)"
    by blast
  have B: "nb \<le> nb'" using nb1(2) nb'(3) by simp
  have C: "length bs = length (i # irqs)" using bs nb'(4) by simp
  from A nb'(1,2) B C show ?case by (intro conjI)
qed

lemma threadless_loop_inv:
  "threadless_loop is_arch_arm badge_bits arch cfg e base msk ends nb = Inr res \<Longrightarrow>
   (\<exists>j. nb = 2 ^ j) \<Longrightarrow> int nb AND msk \<noteq> 0 \<Longrightarrow>
   (case res of
      Return bs \<Rightarrow>
        (\<exists>raws. bs = map (\<lambda>r. int r OR base) raws \<and> sorted_wrt (<) raws \<and>
           (\<forall>r\<in>set raws. int r AND msk = int r))
    | Continue nb' \<Rightarrow> (\<exists>j. nb' = 2 ^ j) \<and> int nb' AND msk \<noteq> 0)"
proof (induction ends arbitrary: nb)
  case Nil
  then show ?case by auto
next
  case (Cons to_end rest)
  show ?case
  proof (cases "generate_interrupts cfg (end_str to_end)")
    case False
    with Cons.prems(1) have
      "threadless_loop is_arch_arm badge_bits arch cfg e base msk rest nb = Inr res" by simp
    from Cons.IH [OF this Cons.prems(2,3)] show ?thesis .
  next
    case True
    with Cons.prems(1) obtain irqs bs nb1 where
      loop: "irq_badges_loop badge_bits (end_str e) base msk irqs nb = Inr (bs, nb1)" and
      res: "(if end_ref e = end_ref to_end then Inr (Return bs)
             else threadless_loop is_arch_arm badge_bits arch cfg e base msk rest nb1) = Inr res"
      by (auto simp: bind_eq_Inr_iff)
    note r = irq_badges_loop_raws [OF loop Cons.prems(2,3)]
    show ?thesis
    proof (cases "end_ref e = end_ref to_end")
      case True
      with res have "res = Return bs" by simp
      with r show ?thesis by auto
    next
      case False
      with res have
        "threadless_loop is_arch_arm badge_bits arch cfg e base msk rest nb1 = Inr res" by simp
      from Cons.IH [OF this] r show ?thesis by blast
    qed
  qed
qed

lemma endpoint_loop_inv:
  "endpoint_loop badge_bits e base msk ends nb = Inr res \<Longrightarrow>
   (\<exists>j. nb = 2 ^ j) \<Longrightarrow> int nb AND msk \<noteq> 0 \<Longrightarrow>
   (case res of
      Return b \<Rightarrow> (\<exists>r. b = int r OR base \<and> (\<exists>j. r = 2 ^ j) \<and> int r AND msk = int r)
    | Continue nb' \<Rightarrow> (\<exists>j. nb' = 2 ^ j) \<and> int nb' AND msk \<noteq> 0)"
proof (induction ends arbitrary: nb)
  case Nil
  then show ?case by auto
next
  case (Cons i rest)
  show ?case
  proof (cases "inst_ref (end_instance i) = inst_ref (end_instance e)")
    case False
    with Cons.prems(1) have "endpoint_loop badge_bits e base msk rest nb = Inr res" by simp
    from Cons.IH [OF this Cons.prems(2,3)] show ?thesis .
  next
    case same: True
    show ?thesis
    proof (cases "end_ref e = end_ref i")
      case True
      with same Cons.prems(1) have res: "res = Return (int nb OR base)" by simp
      from Cons.prems(2,3) have "int nb AND msk = int nb"
        using exp_and_mask by blast
      with Cons.prems(2) have
        "\<exists>r. int nb OR base = int r OR base \<and> (\<exists>j. r = 2 ^ j) \<and> int r AND msk = int r"
        by blast
      with res show ?thesis by simp
    next
      case False
      with same Cons.prems(1) obtain nb1 where
        step: "set_next_badge badge_bits (end_str e) nb msk = Inr nb1" and
        rest: "endpoint_loop badge_bits e base msk rest nb1 = Inr res"
        by (auto simp: bind_eq_Inr_iff)
      from set_next_badge_power [OF step] Cons.prems(2)
      have "\<exists>k. nb1 = 2 ^ k" "int nb1 AND msk \<noteq> 0" by auto
      from Cons.IH [OF rest this] show ?thesis .
    qed
  qed
qed

lemma connections_loop_inv:
  "connections_loop is_arch_arm badge_bits arch cfg e base msk cs nb = Inr res \<Longrightarrow>
   (\<exists>j. nb = 2 ^ j) \<Longrightarrow> int nb AND msk \<noteq> 0 \<Longrightarrow>
   (case res of
      Badges bs \<Rightarrow>
        (\<exists>raws. bs = map (\<lambda>r. int r OR base) raws \<and> sorted_wrt (<) raws \<and>
           (\<forall>r\<in>set raws. int r AND msk = int r))
    | Badge b \<Rightarrow> (\<exists>r. b = int r OR base \<and> (\<exists>j. r = 2 ^ j) \<and> int r AND msk = int r))"
proof (induction cs arbitrary: nb)
  case Nil
  then show ?case by simp
next
  case (Cons c cs)
  from Cons.prems(1) obtain r1 where
    r1: "(if is_threadless_of c e
          then threadless_loop is_arch_arm badge_bits arch cfg e base msk (to_ends c) nb
          else Inr (Continue nb)) = Inr r1"
    by (auto simp: bind_eq_Inr_iff)
  have inv1: "case r1 of
      Return bs \<Rightarrow>
        (\<exists>raws. bs = map (\<lambda>r. int r OR base) raws \<and> sorted_wrt (<) raws \<and>
           (\<forall>r\<in>set raws. int r AND msk = int r))
    | Continue nb' \<Rightarrow> (\<exists>j. nb' = 2 ^ j) \<and> int nb' AND msk \<noteq> 0"
    using r1 threadless_loop_inv [OF _ Cons.prems(2,3)] Cons.prems(2,3)
    by (auto split: if_splits)
  show ?case
  proof (cases r1)
    case (Return bs)
    with Cons.prems(1) r1 have "res = Badges bs" by (auto simp: bind_eq_Inr_iff)
    with inv1 Return show ?thesis by simp
  next
    case c1: (Continue nb1)
    with inv1 have i1: "\<exists>j. nb1 = 2 ^ j" "int nb1 AND msk \<noteq> 0" by auto
    from Cons.prems(1) r1 c1 obtain r2 where
      r2: "(if attribute_default c ''from_global_endpoint''
            then endpoint_loop badge_bits e base msk (from_ends c) nb1
            else Inr (Continue nb1)) = Inr r2"
      by (auto simp: bind_eq_Inr_iff)
    have inv2: "case r2 of
        Return b \<Rightarrow> (\<exists>r. b = int r OR base \<and> (\<exists>j. r = 2 ^ j) \<and> int r AND msk = int r)
      | Continue nb' \<Rightarrow> (\<exists>j. nb' = 2 ^ j) \<and> int nb' AND msk \<noteq> 0"
      using r2 endpoint_loop_inv [OF _ i1] i1 by (auto split: if_splits)
    show ?thesis
    proof (cases r2)
      case (Return b)
      with Cons.prems(1) r1 c1 r2 have "res = Badge b" by (auto simp: bind_eq_Inr_iff)
      with inv2 Return show ?thesis by simp
    next
      case c2: (Continue nb2)
      with inv2 have i2: "\<exists>j. nb2 = 2 ^ j" "int nb2 AND msk \<noteq> 0" by auto
      from Cons.prems(1) r1 c1 r2 c2 obtain r3 where
        r3: "(if attribute_default c ''to_global_endpoint''
              then endpoint_loop badge_bits e base msk (to_ends c) nb2
              else Inr (Continue nb2)) = Inr r3"
        by (auto simp: bind_eq_Inr_iff)
      have inv3: "case r3 of
          Return b \<Rightarrow> (\<exists>r. b = int r OR base \<and> (\<exists>j. r = 2 ^ j) \<and> int r AND msk = int r)
        | Continue nb' \<Rightarrow> (\<exists>j. nb' = 2 ^ j) \<and> int nb' AND msk \<noteq> 0"
        using r3 endpoint_loop_inv [OF _ i2] i2 by (auto split: if_splits)
      show ?thesis
      proof (cases r3)
        case (Return b)
        with Cons.prems(1) r1 c1 r2 c2 r3 have "res = Badge b"
          by (auto simp: bind_eq_Inr_iff)
        with inv3 Return show ?thesis by simp
      next
        case c3: (Continue nb3)
        with inv3 have i3: "\<exists>j. nb3 = 2 ^ j" "int nb3 AND msk \<noteq> 0" by auto
        from Cons.prems(1) r1 c1 r2 c2 r3 c3 have
          "connections_loop is_arch_arm badge_bits arch cfg e base msk cs nb3 = Inr res"
          by (auto simp: bind_eq_Inr_iff)
        from Cons.IH [OF this i3] show ?thesis .
      qed
    qed
  qed
qed

lemma rpc_badges_loop_raws:
  "rpc_badges_loop badge_bits e base msk peers nb = Inr (bs, nb') \<Longrightarrow>
   int nb AND msk = int nb \<Longrightarrow> int nb < min (2 ^ badge_bits) msk \<Longrightarrow>
     (\<exists>raws. bs = map (\<lambda>r. int r OR base) raws \<and> sorted_wrt (<) raws \<and>
        (\<forall>r\<in>set raws. nb \<le> r \<and> r < nb' \<and> int r AND msk = int r \<and>
           int r < min (2 ^ badge_bits) msk)) \<and>
     int nb' AND msk = int nb' \<and> int nb' < min (2 ^ badge_bits) msk \<and> nb \<le> nb' \<and>
     length bs = length peers"
proof (induction peers arbitrary: nb bs)
  case Nil
  then have "bs = map (\<lambda>r. int r OR base) []" "nb' = nb" by simp_all
  with Nil show ?case by auto
next
  case (Cons i2 peers)
  from Cons.prems(1) obtain nb1 bs1 where
    step: "rpc_set_next_badge badge_bits e (nb + 1) msk = Inr nb1" and
    rest: "rpc_badges_loop badge_bits e base msk peers nb1 = Inr (bs1, nb')" and
    bs: "bs = (int nb OR base) # bs1"
    by (auto simp: bind_eq_Inr_iff)
  from rpc_set_next_badge_result [OF step]
  have nb1: "nb + 1 \<le> nb1" "int nb1 AND msk = int nb1" "int nb1 < min (2 ^ badge_bits) msk"
    by simp_all
  from Cons.IH [OF rest nb1(2,3)] obtain raws where
    raws: "bs1 = map (\<lambda>r. int r OR base) raws" "sorted_wrt (<) raws"
      "\<forall>r\<in>set raws. nb1 \<le> r \<and> r < nb' \<and> int r AND msk = int r \<and>
           int r < min (2 ^ badge_bits) msk" and
    nb': "int nb' AND msk = int nb'" "int nb' < min (2 ^ badge_bits) msk" "nb1 \<le> nb'"
      "length bs1 = length peers"
    by blast
  have "bs = map (\<lambda>r. int r OR base) (nb # raws)" using bs raws(1) by simp
  moreover have "sorted_wrt (<) (nb # raws)" using raws(2,3) nb1(1) by auto
  moreover have "\<forall>r\<in>set (nb # raws). nb \<le> r \<and> r < nb' \<and> int r AND msk = int r \<and>
           int r < min (2 ^ badge_bits) msk"
    using raws(3) nb1(1) nb'(3) Cons.prems(2,3) by auto
  ultimately have A: "\<exists>raws. bs = map (\<lambda>r. int r OR base) raws \<and> sorted_wrt (<) raws \<and>
        (\<forall>r\<in>set raws. nb \<le> r \<and> r < nb' \<and> int r AND msk = int r \<and>
           int r < min (2 ^ badge_bits) msk)"
    by blast
  have B: "nb \<le> nb'" using nb1(1) nb'(3) by simp
  have C: "length bs = length (i2 # peers)" using bs nb'(4) by simp
  from A nb'(1,2) B C show ?case by (intro conjI)
qed

lemma rpc_ends_loop_inv:
  "rpc_ends_loop badge_bits e base msk peers ends nb = Inr res \<Longrightarrow>
   int nb AND msk = int nb \<Longrightarrow> int nb < min (2 ^ badge_bits) msk \<Longrightarrow>
   (case res of
      Return bs \<Rightarrow>
        (\<exists>raws. bs = map (\<lambda>r. int r OR base) raws \<and> sorted_wrt (<) raws \<and>
           (\<forall>r\<in>set raws. int r AND msk = int r \<and> int r < min (2 ^ badge_bits) msk)) \<and>
        length bs = length peers \<and> (\<exists>i\<in>set ends. end_ref i = end_ref e)
    | Continue nb' \<Rightarrow> int nb' AND msk = int nb' \<and> int nb' < min (2 ^ badge_bits) msk)"
proof (induction ends arbitrary: nb)
  case Nil
  then show ?case by auto
next
  case (Cons i rest)
  show ?case
  proof (cases "inst_ref (end_instance i) = inst_ref (end_instance e)")
    case False
    with Cons.prems(1) have
      "rpc_ends_loop badge_bits e base msk peers rest nb = Inr res" by simp
    from Cons.IH [OF this Cons.prems(2,3)] show ?thesis
      by (cases res) auto
  next
    case True
    with Cons.prems(1) obtain bs nb1 where
      loop: "rpc_badges_loop badge_bits (end_str e) base msk peers nb = Inr (bs, nb1)" and
      res: "(if end_ref e = end_ref i then Inr (Return bs)
             else rpc_ends_loop badge_bits e base msk peers rest nb1) = Inr res"
      by (auto simp: bind_eq_Inr_iff)
    note r = rpc_badges_loop_raws [OF loop Cons.prems(2,3)]
    show ?thesis
    proof (cases "end_ref e = end_ref i")
      case True
      with res have "res = Return bs" by simp
      moreover from r have "\<exists>raws. bs = map (\<lambda>r. int r OR base) raws \<and> sorted_wrt (<) raws \<and>
           (\<forall>r\<in>set raws. int r AND msk = int r \<and> int r < min (2 ^ badge_bits) msk)"
        by blast
      moreover from r have "length bs = length peers" by blast
      ultimately show ?thesis using True by simp
    next
      case False
      with res have
        "rpc_ends_loop badge_bits e base msk peers rest nb1 = Inr res" by simp
      moreover from r have "int nb1 AND msk = int nb1" "int nb1 < min (2 ^ badge_bits) msk"
        by blast+
      ultimately have "case res of
          Return bs \<Rightarrow>
            (\<exists>raws. bs = map (\<lambda>r. int r OR base) raws \<and> sorted_wrt (<) raws \<and>
               (\<forall>r\<in>set raws. int r AND msk = int r \<and> int r < min (2 ^ badge_bits) msk)) \<and>
            length bs = length peers \<and> (\<exists>i\<in>set rest. end_ref i = end_ref e)
        | Continue nb' \<Rightarrow> int nb' AND msk = int nb' \<and> int nb' < min (2 ^ badge_bits) msk"
        by (rule Cons.IH)
      then show ?thesis by (cases res) auto
    qed
  qed
qed

lemma rpc_connections_loop_inv:
  "rpc_connections_loop badge_bits e base msk cs nb = Inr bs \<Longrightarrow>
   int nb AND msk = int nb \<Longrightarrow> int nb < min (2 ^ badge_bits) msk \<Longrightarrow>
     (\<exists>raws. bs = map (\<lambda>r. int r OR base) raws \<and> sorted_wrt (<) raws \<and>
        (\<forall>r\<in>set raws. int r AND msk = int r \<and> int r < min (2 ^ badge_bits) msk)) \<and>
     (\<exists>c\<in>set cs.
        (\<exists>i\<in>set (from_ends c). end_ref i = end_ref e) \<and> length bs = length (to_ends c) \<or>
        (\<exists>i\<in>set (to_ends c). end_ref i = end_ref e) \<and> length bs = length (from_ends c))"
proof (induction cs arbitrary: nb)
  case Nil
  then show ?case by simp
next
  case (Cons c cs)
  let ?P = "\<lambda>bs. \<exists>raws. bs = map (\<lambda>r. int r OR base) raws \<and> sorted_wrt (<) raws \<and>
        (\<forall>r\<in>set raws. int r AND msk = int r \<and> int r < min (2 ^ badge_bits) msk)"
  from Cons.prems(1) obtain r1 where
    r1: "(if attribute_default c ''from_global_rpc_endpoint''
          then rpc_ends_loop badge_bits e base msk (to_ends c) (from_ends c) nb
          else Inr (Continue nb)) = Inr r1"
    by (auto simp: bind_eq_Inr_iff)
  have inv1: "case r1 of
      Return bs \<Rightarrow> ?P bs \<and> length bs = length (to_ends c) \<and>
        (\<exists>i\<in>set (from_ends c). end_ref i = end_ref e)
    | Continue nb' \<Rightarrow> int nb' AND msk = int nb' \<and> int nb' < min (2 ^ badge_bits) msk"
    using r1 rpc_ends_loop_inv [OF _ Cons.prems(2,3)] Cons.prems(2,3)
    by (auto split: if_splits)
  show ?case
  proof (cases r1)
    case (Return bs1)
    with Cons.prems(1) r1 have "bs = bs1" by (auto simp: bind_eq_Inr_iff)
    with inv1 Return show ?thesis by auto
  next
    case c1: (Continue nb1)
    with inv1 have i1: "int nb1 AND msk = int nb1" "int nb1 < min (2 ^ badge_bits) msk"
      by auto
    from Cons.prems(1) r1 c1 obtain r2 where
      r2: "(if attribute_default c ''to_global_rpc_endpoint''
            then rpc_ends_loop badge_bits e base msk (from_ends c) (to_ends c) nb1
            else Inr (Continue nb1)) = Inr r2"
      by (auto simp: bind_eq_Inr_iff)
    have inv2: "case r2 of
        Return bs \<Rightarrow> ?P bs \<and> length bs = length (from_ends c) \<and>
          (\<exists>i\<in>set (to_ends c). end_ref i = end_ref e)
      | Continue nb' \<Rightarrow> int nb' AND msk = int nb' \<and> int nb' < min (2 ^ badge_bits) msk"
      using r2 rpc_ends_loop_inv [OF _ i1] i1 by (auto split: if_splits)
    show ?thesis
    proof (cases r2)
      case (Return bs2)
      with Cons.prems(1) r1 c1 r2 have "bs = bs2" by (auto simp: bind_eq_Inr_iff)
      with inv2 Return show ?thesis by auto
    next
      case c2: (Continue nb2)
      with inv2 have i2: "int nb2 AND msk = int nb2" "int nb2 < min (2 ^ badge_bits) msk"
        by auto
      from Cons.prems(1) r1 c1 r2 c2 have
        "rpc_connections_loop badge_bits e base msk cs nb2 = Inr bs"
        by (auto simp: bind_eq_Inr_iff)
      from Cons.IH [OF this i2] show ?thesis by auto
    qed
  qed
qed

lemma rpc_fixture_default:
  "global_rpc_endpoint_badges 28 rpc_composition (end_of 10 (component 0 ''server'') ''in'')
     (settings []) = Inr [2, 4, 6]"
  by (simp add: global_rpc_endpoint_badges_def global_rpc_endpoint_base_def
      global_rpc_endpoint_mask_def rpc_composition_def settings_def end_of_def component_def
      connector_def attribute_default_def rpc_set_next_badge.simps)

lemma rpc_fixture_overlap:
  "global_rpc_endpoint_badges 28 rpc_composition (end_of 10 (component 0 ''server'') ''in'')
     (settings [((''server'', ''global_rpc_endpoint_base''), 6),
                ((''server'', ''global_rpc_endpoint_mask''), 14)]) = Inr [6, 6, 6]"
  by (simp add: global_rpc_endpoint_badges_def global_rpc_endpoint_base_def
      global_rpc_endpoint_mask_def rpc_composition_def settings_def end_of_def component_def
      connector_def attribute_default_def rpc_set_next_badge.simps)

lemma upt_0_2: "[0..<2] = [0, 1]"
  by (simp add: upt_rec)

lemma irq_fixture:
  "global_endpoint_badges (\<lambda>a. a = ''aarch32'') 28 irq_composition
     (end_of 21 (component 0 ''driver'') ''dev'') irq_configuration ''aarch32''
   = Inr (Badges [3, 5])"
  by (simp add: global_endpoint_badges_def global_endpoint_base_def
      global_endpoint_mask_def irq_composition_def irq_configuration_def settings_def
      end_of_def component_def connector_def attribute_default_def is_threadless_of_def
      dtb_of_def subscript_def parse_dtb_node_interrupts_def parse_arm_def arm_interrupt_def
      set_next_badge.simps upt_0_2)

text \<open>
  Claim C2. With 28 badge bits and \<open>global_endpoint_mask\<close> configured as \<open>2 ^ 28\<close>,
  the notification allocator gives the only end the badge \<open>2 ^ 28 | 1\<close>: the badge
  without its base is \<open>2 ^ 28\<close>, which is not below \<open>2 ^ 28\<close>. The bound on the width
  holds for the masks that lie within the width (\<open>set_next_badge_within_width\<close>) and
  for the RPC allocator (\<open>rpc_set_next_badge_result\<close>), and the containment in the mask
  holds for both (\<open>connections_loop_inv\<close>, \<open>rpc_connections_loop_inv\<close>).
\<close>

theorem notification_badge_beyond_width:
  "global_endpoint_badges (\<lambda>a. a = ''aarch32'') 28 notification_composition
     (end_of 10 (component 0 ''server'') ''in'')
     (settings [((''server'', ''global_endpoint_mask''), 2 ^ 28)]) ''aarch32''
   = Inr (Badge (2 ^ 28 OR 1))"
  by (simp add: global_endpoint_badges_def global_endpoint_base_def
      global_endpoint_mask_def notification_composition_def settings_def
      end_of_def component_def connector_def attribute_default_def is_threadless_of_def
      set_next_badge.simps)

subsection \<open>Badges of two ends of one instance\<close>

text \<open>
  An allocator called for two different ends of one instance walks the same connections
  with the same cursor until it meets one of the two ends and returns its badges; the
  call for the other end has by then moved its cursor past every one of those badges.
  So the badges of the two calls are separated, whatever the strings are that only the
  error messages use.
\<close>

lemma badges_from_mono: "lo \<le> lo' \<Longrightarrow> badges_from base msk lo' \<subseteq> badges_from base msk lo"
  unfolding badges_from_def by (rule image_mono) auto

lemma badges_below_mono: "hi \<le> hi' \<Longrightarrow> badges_below base msk hi \<subseteq> badges_below base msk hi'"
  unfolding badges_below_def by (rule image_mono) auto

lemma separated_sym: "separated base msk X Y \<Longrightarrow> separated base msk Y X"
  unfolding separated_def by blast

lemma separatedI: "X \<subseteq> badges_below base msk hi \<Longrightarrow> Y \<subseteq> badges_from base msk hi \<Longrightarrow>
    separated base msk X Y"
  unfolding separated_def by blast

lemma flow_pair_sym: "flow_pair base msk V f1 f2 \<Longrightarrow> flow_pair base msk V f2 f1"
  by (cases f1; cases f2) (auto dest: separated_sym)

lemma separated_disjoint:
  assumes "base AND msk = 0" "separated base msk X Y"
  shows "X \<inter> Y = {}"
proof -
  have d: "badges_below base msk hi \<inter> badges_from base msk hi = {}" for hi
  proof (rule ccontr)
    assume "badges_below base msk hi \<inter> badges_from base msk hi \<noteq> {}"
    then obtain b where "b \<in> badges_below base msk hi" "b \<in> badges_from base msk hi"
      by blast
    then obtain r r' where r: "b = int r OR base" "r < hi" "int r AND msk = int r"
      and r': "b = int r' OR base" "hi \<le> r'" "int r' AND msk = int r'"
      unfolding badges_below_def badges_from_def by blast
    from r(1) r'(1) have "int r OR base = int r' OR base" by simp
    from or_base_inj [OF assms(1) r(3) r'(3) this] have "r = r'" by simp
    with r(2) r'(2) show False by simp
  qed
  from assms(2) show ?thesis unfolding separated_def using d by blast
qed

lemma compose_lower:
  assumes "bind A (\<lambda>r. case r of Return x \<Rightarrow> Inr (w x) | Continue n \<Rightarrow> K n) = Inr y"
    and "\<And>f. A = Inr f \<Longrightarrow> flow_lower base msk (\<lambda>x. V (w x)) ok nb f"
    and "\<And>n y. ok n \<Longrightarrow> K n = Inr y \<Longrightarrow> V y \<subseteq> badges_from base msk n"
  shows "V y \<subseteq> badges_from base msk nb"
proof -
  from assms(1) obtain f where f: "A = Inr f"
    and k: "(case f of Return x \<Rightarrow> Inr (w x) | Continue n \<Rightarrow> K n) = Inr y"
    by (auto simp: bind_eq_Inr_iff)
  note l = assms(2) [OF f]
  show ?thesis
  proof (cases f)
    case (Return x)
    with k l show ?thesis by auto
  next
    case (Continue n)
    with k l have "ok n" "nb \<le> n" "K n = Inr y" by auto
    from assms(3) [OF this(1,3)] badges_from_mono [OF this(2)] show ?thesis by blast
  qed
qed

lemma compose_pair:
  assumes "bind A1 (\<lambda>r. case r of Return x \<Rightarrow> Inr (w x) | Continue n \<Rightarrow> K1 n) = Inr y1"
    and "bind A2 (\<lambda>r. case r of Return x \<Rightarrow> Inr (w x) | Continue n \<Rightarrow> K2 n) = Inr y2"
    and "\<And>f1 f2. A1 = Inr f1 \<Longrightarrow> A2 = Inr f2 \<Longrightarrow> flow_pair base msk (\<lambda>x. V (w x)) f1 f2"
    and "\<And>f. A1 = Inr f \<Longrightarrow> flow_lower base msk (\<lambda>x. V (w x)) ok nb f"
    and "\<And>f. A2 = Inr f \<Longrightarrow> flow_lower base msk (\<lambda>x. V (w x)) ok nb f"
    and "\<And>n y. ok n \<Longrightarrow> K1 n = Inr y \<Longrightarrow> V y \<subseteq> badges_from base msk n"
    and "\<And>n y. ok n \<Longrightarrow> K2 n = Inr y \<Longrightarrow> V y \<subseteq> badges_from base msk n"
    and "\<And>n y1 y2. ok n \<Longrightarrow> K1 n = Inr y1 \<Longrightarrow> K2 n = Inr y2 \<Longrightarrow>
           separated base msk (V y1) (V y2)"
  shows "separated base msk (V y1) (V y2)"
proof -
  from assms(1) obtain f1 where f1: "A1 = Inr f1"
    and k1: "(case f1 of Return x \<Rightarrow> Inr (w x) | Continue n \<Rightarrow> K1 n) = Inr y1"
    by (auto simp: bind_eq_Inr_iff)
  from assms(2) obtain f2 where f2: "A2 = Inr f2"
    and k2: "(case f2 of Return x \<Rightarrow> Inr (w x) | Continue n \<Rightarrow> K2 n) = Inr y2"
    by (auto simp: bind_eq_Inr_iff)
  note p = assms(3) [OF f1 f2]
  note l1 = assms(4) [OF f1]
  note l2 = assms(5) [OF f2]
  show ?thesis
  proof (cases f1)
    case r1: (Return x1)
    with k1 have y1: "y1 = w x1" by simp
    show ?thesis
    proof (cases f2)
      case (Return x2)
      with k2 have "y2 = w x2" by simp
      with p r1 Return y1 show ?thesis by simp
    next
      case (Continue n2)
      with k2 l2 have "ok n2" "K2 n2 = Inr y2" by auto
      from assms(7) [OF this] have "V y2 \<subseteq> badges_from base msk n2" .
      moreover from p r1 Continue y1 have "V y1 \<subseteq> badges_below base msk n2" by simp
      ultimately show ?thesis by (intro separatedI)
    qed
  next
    case c1: (Continue n1)
    with k1 l1 have n1: "ok n1" "K1 n1 = Inr y1" by auto
    show ?thesis
    proof (cases f2)
      case (Return x2)
      with k2 have y2: "y2 = w x2" by simp
      from assms(6) [OF n1] have "V y1 \<subseteq> badges_from base msk n1" .
      moreover from p c1 Return y2 have "V y2 \<subseteq> badges_below base msk n1" by simp
      ultimately show ?thesis by (intro separated_sym [OF separatedI])
    next
      case (Continue n2)
      with p c1 have "n1 = n2" by simp
      with k2 Continue have "K2 n1 = Inr y2" by simp
      from assms(8) [OF n1 this] show ?thesis .
    qed
  qed
qed

lemma power_in_mask: "power_in msk n \<Longrightarrow> int n AND msk = int n"
  unfolding power_in_def using exp_and_mask by blast

lemma power_in_step:
  assumes "set_next_badge badge_bits s nb msk = Inr n1" "power_in msk nb"
  shows "power_in msk n1 \<and> nb < n1"
  using set_next_badge_power [OF assms(1)] assms(2) unfolding power_in_def by blast

lemma power_in_start:
  assumes "set_next_badge badge_bits s 0 msk = Inr n1"
  shows "power_in msk n1"
  using set_next_badge_power [OF assms] unfolding power_in_def by blast

lemma badge_in_from: "int r AND msk = int r \<Longrightarrow> lo \<le> r \<Longrightarrow> int r OR base \<in> badges_from base msk lo"
  unfolding badges_from_def by blast

lemma badge_in_below: "int r AND msk = int r \<Longrightarrow> r < hi \<Longrightarrow> int r OR base \<in> badges_below base msk hi"
  unfolding badges_below_def by blast

lemma set_next_badge_str:
  "set_next_badge badge_bits s nb msk = Inr r \<Longrightarrow> set_next_badge badge_bits s' nb msk = Inr r"
proof (induction badge_bits s nb msk rule: set_next_badge.induct)
  case (1 badge_bits s nb msk)
  let ?c = "if nb = 0 then 1 else push_bit 1 nb :: nat"
  from "1.prems" have lt: "\<not> 2 ^ badge_bits \<le> nb"
    by (subst (asm) set_next_badge.simps) (auto split: if_splits)
  show ?case
  proof (cases "int ?c AND msk = 0")
    case True
    with "1.prems" lt have "set_next_badge badge_bits s ?c msk = Inr r"
      by (subst (asm) set_next_badge.simps) (simp add: Let_def)
    from "1.IH" [OF lt refl True this] have "set_next_badge badge_bits s' ?c msk = Inr r" .
    with lt True show ?thesis by (subst set_next_badge.simps) (simp add: Let_def)
  next
    case False
    with "1.prems" lt have "r = ?c"
      by (subst (asm) set_next_badge.simps) (simp add: Let_def)
    with lt False show ?thesis by (subst set_next_badge.simps) (simp add: Let_def)
  qed
qed

lemma irq_badges_loop_str:
  "irq_badges_loop badge_bits s base msk irqs nb = Inr p \<Longrightarrow>
     irq_badges_loop badge_bits s' base msk irqs nb = Inr p"
proof (induction irqs arbitrary: nb p)
  case Nil
  then show ?case by simp
next
  case (Cons i irqs)
  from Cons.prems obtain nb1 q where
    step: "set_next_badge badge_bits s nb msk = Inr nb1" and
    rest: "irq_badges_loop badge_bits s base msk irqs nb1 = Inr q" and
    p: "(case q of (bs, nb2) \<Rightarrow> Inr ((int nb OR base) # bs, nb2)) = Inr p"
    by (auto simp: bind_eq_Inr_iff)
  obtain bs nb2 where q: "q = (bs, nb2)" by (cases q)
  with p have p': "p = ((int nb OR base) # bs, nb2)" by simp
  have "set_next_badge badge_bits s' nb msk = Inr nb1" by (rule set_next_badge_str [OF step])
  moreover have "irq_badges_loop badge_bits s' base msk irqs nb1 = Inr q"
    by (rule Cons.IH [OF rest])
  ultimately show ?case using q p' by simp
qed

lemma irq_badges_loop_sets:
  assumes "irq_badges_loop badge_bits s base msk irqs nb = Inr (bs, nb')" "power_in msk nb"
  shows "set bs \<subseteq> badges_from base msk nb \<and> set bs \<subseteq> badges_below base msk nb' \<and>
         power_in msk nb' \<and> nb \<le> nb'"
proof -
  from assms(2) have a: "\<exists>j. nb = 2 ^ j" "int nb AND msk \<noteq> 0"
    unfolding power_in_def by simp_all
  from irq_badges_loop_raws [OF assms(1) a] obtain raws where
    raws: "bs = map (\<lambda>r. int r OR base) raws"
      "\<forall>r\<in>set raws. nb \<le> r \<and> r < nb' \<and> int r AND msk = int r" and
    nb': "\<exists>j. nb' = 2 ^ j" "int nb' AND msk \<noteq> 0" "nb \<le> nb'"
    by blast
  from raws have "set bs \<subseteq> badges_from base msk nb"
    by (auto intro: badge_in_from)
  moreover from raws have "set bs \<subseteq> badges_below base msk nb'"
    by (auto intro: badge_in_below)
  ultimately show ?thesis using nb' unfolding power_in_def by blast
qed

lemma threadless_loop_lower:
  "threadless_loop is_arch_arm badge_bits arch cfg e base msk ends nb = Inr f \<Longrightarrow>
   power_in msk nb \<Longrightarrow> flow_lower base msk set (power_in msk) nb f"
proof (induction ends arbitrary: nb)
  case Nil
  then show ?case by auto
next
  case (Cons to_end rest)
  show ?case
  proof (cases "generate_interrupts cfg (end_str to_end)")
    case False
    with Cons.prems(1) have
      "threadless_loop is_arch_arm badge_bits arch cfg e base msk rest nb = Inr f" by simp
    from Cons.IH [OF this Cons.prems(2)] show ?thesis .
  next
    case True
    with Cons.prems(1) obtain irqs bs nb1 where
      loop: "irq_badges_loop badge_bits (end_str e) base msk irqs nb = Inr (bs, nb1)" and
      res: "(if end_ref e = end_ref to_end then Inr (Return bs)
             else threadless_loop is_arch_arm badge_bits arch cfg e base msk rest nb1) = Inr f"
      by (auto simp: bind_eq_Inr_iff)
    note r = irq_badges_loop_sets [OF loop Cons.prems(2)]
    show ?thesis
    proof (cases "end_ref e = end_ref to_end")
      case True
      with res have "f = Return bs" by simp
      with r show ?thesis by simp
    next
      case False
      with res have
        "threadless_loop is_arch_arm badge_bits arch cfg e base msk rest nb1 = Inr f" by simp
      from Cons.IH [OF this] r have l: "flow_lower base msk set (power_in msk) nb1 f" by blast
      from r have le: "nb \<le> nb1" by blast
      show ?thesis
      proof (cases f)
        case (Return x)
        with l badges_from_mono [OF le, of base msk] show ?thesis by auto
      next
        case (Continue n)
        with l le show ?thesis by auto
      qed
    qed
  qed
qed

lemma endpoint_loop_lower:
  "endpoint_loop badge_bits e base msk ends nb = Inr f \<Longrightarrow>
   power_in msk nb \<Longrightarrow> flow_lower base msk (\<lambda>b. {b}) (power_in msk) nb f"
proof (induction ends arbitrary: nb)
  case Nil
  then show ?case by auto
next
  case (Cons i rest)
  show ?case
  proof (cases "inst_ref (end_instance i) = inst_ref (end_instance e)")
    case False
    with Cons.prems(1) have "endpoint_loop badge_bits e base msk rest nb = Inr f" by simp
    from Cons.IH [OF this Cons.prems(2)] show ?thesis .
  next
    case same: True
    show ?thesis
    proof (cases "end_ref e = end_ref i")
      case True
      with same Cons.prems(1) have "f = Return (int nb OR base)" by simp
      with badge_in_from [OF power_in_mask [OF Cons.prems(2)] order_refl] show ?thesis
        by simp
    next
      case False
      with same Cons.prems(1) obtain nb1 where
        step: "set_next_badge badge_bits (end_str e) nb msk = Inr nb1" and
        rest: "endpoint_loop badge_bits e base msk rest nb1 = Inr f"
        by (auto simp: bind_eq_Inr_iff)
      note s = power_in_step [OF step Cons.prems(2)]
      from Cons.IH [OF rest] s have l: "flow_lower base msk (\<lambda>b. {b}) (power_in msk) nb1 f"
        by blast
      from s have le: "nb \<le> nb1" by simp
      show ?thesis
      proof (cases f)
        case (Return x)
        with l badges_from_mono [OF le, of base msk] show ?thesis by auto
      next
        case (Continue n)
        with l le show ?thesis by auto
      qed
    qed
  qed
qed

lemma flow_pair_first:
  assumes "V x \<subseteq> badges_below base msk hi" "flow_lower base msk V ok hi f"
  shows "flow_pair base msk V (Return x) f"
proof (cases f)
  case (Return y)
  with assms show ?thesis by (auto intro: separatedI)
next
  case (Continue n)
  with assms(2) have "hi \<le> n" by simp
  from badges_below_mono [OF this, of base msk] assms(1) Continue show ?thesis by auto
qed

lemma threadless_loop_pair:
  assumes "end_ref e1 \<noteq> end_ref e2"
  shows "threadless_loop is_arch_arm badge_bits arch cfg e1 base msk ends nb = Inr f1 \<Longrightarrow>
     threadless_loop is_arch_arm badge_bits arch cfg e2 base msk ends nb = Inr f2 \<Longrightarrow>
     power_in msk nb \<Longrightarrow> flow_pair base msk set f1 f2"
proof (induction ends arbitrary: nb)
  case Nil
  then show ?case by auto
next
  case (Cons to_end rest)
  show ?case
  proof (cases "generate_interrupts cfg (end_str to_end)")
    case False
    with Cons.prems(1,2) have
      "threadless_loop is_arch_arm badge_bits arch cfg e1 base msk rest nb = Inr f1"
      "threadless_loop is_arch_arm badge_bits arch cfg e2 base msk rest nb = Inr f2"
      by simp_all
    from Cons.IH [OF this Cons.prems(3)] show ?thesis .
  next
    case True
    with Cons.prems(1) obtain dtb irqs bs nb1 where
      d1: "dtb_of cfg (end_str to_end) = Inr dtb" and
      i1: "parse_dtb_node_interrupts is_arch_arm dtb (-1) arch = Inr irqs" and
      loop1: "irq_badges_loop badge_bits (end_str e1) base msk irqs nb = Inr (bs, nb1)" and
      res1: "(if end_ref e1 = end_ref to_end then Inr (Return bs)
             else threadless_loop is_arch_arm badge_bits arch cfg e1 base msk rest nb1) = Inr f1"
      by (auto simp: bind_eq_Inr_iff)
    have loop2: "irq_badges_loop badge_bits (end_str e2) base msk irqs nb = Inr (bs, nb1)"
      by (rule irq_badges_loop_str [OF loop1])
    with True Cons.prems(2) d1 i1 have
      res2: "(if end_ref e2 = end_ref to_end then Inr (Return bs)
             else threadless_loop is_arch_arm badge_bits arch cfg e2 base msk rest nb1) = Inr f2"
      by simp
    note r = irq_badges_loop_sets [OF loop1 Cons.prems(3)]
    from r have below: "set bs \<subseteq> badges_below base msk nb1" and ok: "power_in msk nb1"
      by blast+
    show ?thesis
    proof (cases "end_ref e1 = end_ref to_end")
      case True
      with assms have "end_ref e2 \<noteq> end_ref to_end" by simp
      with res2 have
        "threadless_loop is_arch_arm badge_bits arch cfg e2 base msk rest nb1 = Inr f2" by simp
      from threadless_loop_lower [OF this ok]
      have "flow_lower base msk set (power_in msk) nb1 f2" .
      from flow_pair_first [OF below this] True res1 show ?thesis by simp
    next
      case n1: False
      with res1 have t1:
        "threadless_loop is_arch_arm badge_bits arch cfg e1 base msk rest nb1 = Inr f1" by simp
      show ?thesis
      proof (cases "end_ref e2 = end_ref to_end")
        case True
        from threadless_loop_lower [OF t1 ok]
        have "flow_lower base msk set (power_in msk) nb1 f1" .
        from flow_pair_first [OF below this] have "flow_pair base msk set (Return bs) f1" .
        from flow_pair_sym [OF this] True res2 show ?thesis by simp
      next
        case False
        with res2 have
          "threadless_loop is_arch_arm badge_bits arch cfg e2 base msk rest nb1 = Inr f2"
          by simp
        from Cons.IH [OF t1 this ok] show ?thesis .
      qed
    qed
  qed
qed

lemma endpoint_loop_pair:
  assumes "end_ref e1 \<noteq> end_ref e2"
    and "inst_ref (end_instance e1) = inst_ref (end_instance e2)"
  shows "endpoint_loop badge_bits e1 base msk ends nb = Inr f1 \<Longrightarrow>
     endpoint_loop badge_bits e2 base msk ends nb = Inr f2 \<Longrightarrow>
     power_in msk nb \<Longrightarrow> flow_pair base msk (\<lambda>b. {b}) f1 f2"
proof (induction ends arbitrary: nb)
  case Nil
  then show ?case by auto
next
  case (Cons i rest)
  show ?case
  proof (cases "inst_ref (end_instance i) = inst_ref (end_instance e1)")
    case False
    with Cons.prems(1,2) assms(2) have
      "endpoint_loop badge_bits e1 base msk rest nb = Inr f1"
      "endpoint_loop badge_bits e2 base msk rest nb = Inr f2"
      by simp_all
    from Cons.IH [OF this Cons.prems(3)] show ?thesis .
  next
    case same: True
    with assms(2) have same2: "inst_ref (end_instance i) = inst_ref (end_instance e2)" by simp
    note inmask = power_in_mask [OF Cons.prems(3)]
    show ?thesis
    proof (cases "end_ref e1 = end_ref i")
      case True
      with assms(1) have "end_ref e2 \<noteq> end_ref i" by simp
      with same2 Cons.prems(2) obtain nb1 where
        step: "set_next_badge badge_bits (end_str e2) nb msk = Inr nb1" and
        rest: "endpoint_loop badge_bits e2 base msk rest nb1 = Inr f2"
        by (auto simp: bind_eq_Inr_iff)
      note s = power_in_step [OF step Cons.prems(3)]
      from s have below: "{int nb OR base} \<subseteq> badges_below base msk nb1"
        using badge_in_below [OF inmask] by simp
      from endpoint_loop_lower [OF rest] s
      have "flow_lower base msk (\<lambda>b. {b}) (power_in msk) nb1 f2" by blast
      from flow_pair_first [where V = "\<lambda>b. {b}", OF below this] True same Cons.prems(1)
      show ?thesis by simp
    next
      case n1: False
      with same Cons.prems(1) obtain nb1 where
        step1: "set_next_badge badge_bits (end_str e1) nb msk = Inr nb1" and
        rest1: "endpoint_loop badge_bits e1 base msk rest nb1 = Inr f1"
        by (auto simp: bind_eq_Inr_iff)
      note s = power_in_step [OF step1 Cons.prems(3)]
      show ?thesis
      proof (cases "end_ref e2 = end_ref i")
        case True
        from s have below: "{int nb OR base} \<subseteq> badges_below base msk nb1"
          using badge_in_below [OF inmask] by simp
        from endpoint_loop_lower [OF rest1] s
        have "flow_lower base msk (\<lambda>b. {b}) (power_in msk) nb1 f1" by blast
        from flow_pair_first [where V = "\<lambda>b. {b}", OF below this]
        have "flow_pair base msk (\<lambda>b. {b}) (Return (int nb OR base)) f1" .
        from flow_pair_sym [OF this] True same2 Cons.prems(2) show ?thesis by simp
      next
        case False
        have "set_next_badge badge_bits (end_str e2) nb msk = Inr nb1"
          by (rule set_next_badge_str [OF step1])
        with False same2 Cons.prems(2) have
          "endpoint_loop badge_bits e2 base msk rest nb1 = Inr f2" by simp
        from Cons.IH [OF rest1 this] s show ?thesis by blast
      qed
    qed
  qed
qed

lemma threadless_phase_lower:
  assumes "(if t then threadless_loop is_arch_arm badge_bits arch cfg e base msk ends nb
            else Inr (Continue nb)) = Inr f" "power_in msk nb"
  shows "flow_lower base msk (\<lambda>x. badge_values (Badges x)) (power_in msk) nb f"
proof (cases t)
  case True
  with assms(1) have
    "threadless_loop is_arch_arm badge_bits arch cfg e base msk ends nb = Inr f" by simp
  from threadless_loop_lower [OF this assms(2)] show ?thesis by (cases f) simp_all
next
  case False
  with assms show ?thesis by auto
qed

lemma endpoint_phase_lower:
  assumes "(if t then endpoint_loop badge_bits e base msk ends nb
            else Inr (Continue nb)) = Inr f" "power_in msk nb"
  shows "flow_lower base msk (\<lambda>x. badge_values (Badge x)) (power_in msk) nb f"
proof (cases t)
  case True
  with assms(1) have "endpoint_loop badge_bits e base msk ends nb = Inr f" by simp
  from endpoint_loop_lower [OF this assms(2)] show ?thesis by (cases f) simp_all
next
  case False
  with assms show ?thesis by auto
qed

lemma threadless_phase_pair:
  assumes "end_ref e1 \<noteq> end_ref e2"
    and "(if t then threadless_loop is_arch_arm badge_bits arch cfg e1 base msk ends nb
          else Inr (Continue nb)) = Inr f1"
    and "(if t then threadless_loop is_arch_arm badge_bits arch cfg e2 base msk ends nb
          else Inr (Continue nb)) = Inr f2"
    and "power_in msk nb"
  shows "flow_pair base msk (\<lambda>x. badge_values (Badges x)) f1 f2"
proof (cases t)
  case True
  with assms(2,3) have
    "threadless_loop is_arch_arm badge_bits arch cfg e1 base msk ends nb = Inr f1"
    "threadless_loop is_arch_arm badge_bits arch cfg e2 base msk ends nb = Inr f2"
    by simp_all
  from threadless_loop_pair [OF assms(1) this assms(4)] show ?thesis
    by (cases f1; cases f2) simp_all
next
  case False
  with assms show ?thesis by auto
qed

lemma endpoint_phase_pair:
  assumes "end_ref e1 \<noteq> end_ref e2"
    and "inst_ref (end_instance e1) = inst_ref (end_instance e2)"
    and "(if t then endpoint_loop badge_bits e1 base msk ends nb
          else Inr (Continue nb)) = Inr f1"
    and "(if t then endpoint_loop badge_bits e2 base msk ends nb
          else Inr (Continue nb)) = Inr f2"
    and "power_in msk nb"
  shows "flow_pair base msk (\<lambda>x. badge_values (Badge x)) f1 f2"
proof (cases t)
  case True
  with assms(3,4) have
    "endpoint_loop badge_bits e1 base msk ends nb = Inr f1"
    "endpoint_loop badge_bits e2 base msk ends nb = Inr f2"
    by simp_all
  from endpoint_loop_pair [OF assms(1,2) this assms(5)] show ?thesis
    by (cases f1; cases f2) simp_all
next
  case False
  with assms show ?thesis by auto
qed

lemma connections_loop_lower:
  "connections_loop is_arch_arm badge_bits arch cfg e base msk cs nb = Inr y \<Longrightarrow>
   power_in msk nb \<Longrightarrow> badge_values y \<subseteq> badges_from base msk nb"
proof (induction cs arbitrary: nb y)
  case Nil
  then show ?case by simp
next
  case (Cons c cs)
  let ?KG = "\<lambda>n. bind (if attribute_default c ''to_global_endpoint''
                        then endpoint_loop badge_bits e base msk (to_ends c) n
                        else Inr (Continue n))
      (\<lambda>r3. case r3 of Return b \<Rightarrow> Inr (Badge b)
        | Continue n3 \<Rightarrow> connections_loop is_arch_arm badge_bits arch cfg e base msk cs n3)"
  let ?KF = "\<lambda>n. bind (if attribute_default c ''from_global_endpoint''
                        then endpoint_loop badge_bits e base msk (from_ends c) n
                        else Inr (Continue n))
      (\<lambda>r2. case r2 of Return b \<Rightarrow> Inr (Badge b) | Continue n2 \<Rightarrow> ?KG n2)"
  have G: "badge_values y \<subseteq> badges_from base msk n" if "power_in msk n" "?KG n = Inr y" for n y
    by (rule compose_lower [where V = badge_values and ok = "power_in msk", OF that(2)])
      (rule endpoint_phase_lower [OF _ that(1)], assumption, rule Cons.IH)
  have F: "badge_values y \<subseteq> badges_from base msk n" if "power_in msk n" "?KF n = Inr y" for n y
    by (rule compose_lower [where V = badge_values and ok = "power_in msk", OF that(2)])
      (rule endpoint_phase_lower [OF _ that(1)], assumption, rule G)
  from Cons.prems(1) have
    "bind (if is_threadless_of c e
           then threadless_loop is_arch_arm badge_bits arch cfg e base msk (to_ends c) nb
           else Inr (Continue nb))
       (\<lambda>r1. case r1 of Return x \<Rightarrow> Inr (Badges x) | Continue n1 \<Rightarrow> ?KF n1) = Inr y"
    by simp
  then show ?case
    by (rule compose_lower [where V = badge_values and ok = "power_in msk"])
      (rule threadless_phase_lower [OF _ Cons.prems(2)], assumption, rule F)
qed

lemma connections_loop_pair:
  assumes "end_ref e1 \<noteq> end_ref e2"
    and "inst_ref (end_instance e1) = inst_ref (end_instance e2)"
  shows "connections_loop is_arch_arm badge_bits arch cfg e1 base msk cs nb = Inr y1 \<Longrightarrow>
     connections_loop is_arch_arm badge_bits arch cfg e2 base msk cs nb = Inr y2 \<Longrightarrow>
     power_in msk nb \<Longrightarrow> separated base msk (badge_values y1) (badge_values y2)"
proof (induction cs arbitrary: nb y1 y2)
  case Nil
  then show ?case by simp
next
  case (Cons c cs)
  let ?KG = "\<lambda>e n. bind (if attribute_default c ''to_global_endpoint''
                        then endpoint_loop badge_bits e base msk (to_ends c) n
                        else Inr (Continue n))
      (\<lambda>r3. case r3 of Return b \<Rightarrow> Inr (Badge b)
        | Continue n3 \<Rightarrow> connections_loop is_arch_arm badge_bits arch cfg e base msk cs n3)"
  let ?KF = "\<lambda>e n. bind (if attribute_default c ''from_global_endpoint''
                        then endpoint_loop badge_bits e base msk (from_ends c) n
                        else Inr (Continue n))
      (\<lambda>r2. case r2 of Return b \<Rightarrow> Inr (Badge b) | Continue n2 \<Rightarrow> ?KG e n2)"
  have thr: "is_threadless_of c e2 = is_threadless_of c e1"
    using assms(2) by (simp add: is_threadless_of_def)
  have GL: "badge_values y \<subseteq> badges_from base msk n"
    if "power_in msk n" "?KG e n = Inr y" for e n y
    by (rule compose_lower [where V = badge_values and ok = "power_in msk", OF that(2)])
      (rule endpoint_phase_lower [OF _ that(1)], assumption, rule connections_loop_lower)
  have FL: "badge_values y \<subseteq> badges_from base msk n"
    if "power_in msk n" "?KF e n = Inr y" for e n y
    by (rule compose_lower [where V = badge_values and ok = "power_in msk", OF that(2)])
      (rule endpoint_phase_lower [OF _ that(1)], assumption, rule GL)
  have GP: "separated base msk (badge_values y1) (badge_values y2)"
    if "power_in msk n" "?KG e1 n = Inr y1" "?KG e2 n = Inr y2" for n y1 y2
    by (rule compose_pair [where V = badge_values and ok = "power_in msk" and nb = n,
          OF that(2,3)])
      (rule endpoint_phase_pair [OF assms _ _ that(1)], assumption, assumption,
       rule endpoint_phase_lower [OF _ that(1)], assumption,
       rule endpoint_phase_lower [OF _ that(1)], assumption,
       rule connections_loop_lower, assumption, assumption,
       rule connections_loop_lower, assumption, assumption,
       rule Cons.IH)
  have FP: "separated base msk (badge_values y1) (badge_values y2)"
    if "power_in msk n" "?KF e1 n = Inr y1" "?KF e2 n = Inr y2" for n y1 y2
    by (rule compose_pair [where V = badge_values and ok = "power_in msk" and nb = n,
          OF that(2,3)])
      (rule endpoint_phase_pair [OF assms _ _ that(1)], assumption, assumption,
       rule endpoint_phase_lower [OF _ that(1)], assumption,
       rule endpoint_phase_lower [OF _ that(1)], assumption,
       rule GL, assumption, assumption,
       rule GL, assumption, assumption,
       rule GP)
  from Cons.prems(1) have r1:
    "bind (if is_threadless_of c e1
           then threadless_loop is_arch_arm badge_bits arch cfg e1 base msk (to_ends c) nb
           else Inr (Continue nb))
       (\<lambda>r1. case r1 of Return x \<Rightarrow> Inr (Badges x) | Continue n1 \<Rightarrow> ?KF e1 n1) = Inr y1"
    by simp
  from Cons.prems(2) thr have r2:
    "bind (if is_threadless_of c e1
           then threadless_loop is_arch_arm badge_bits arch cfg e2 base msk (to_ends c) nb
           else Inr (Continue nb))
       (\<lambda>r1. case r1 of Return x \<Rightarrow> Inr (Badges x) | Continue n1 \<Rightarrow> ?KF e2 n1) = Inr y2"
    by simp
  show ?case
    by (rule compose_pair [where V = badge_values and ok = "power_in msk" and nb = nb,
          OF r1 r2])
      (rule threadless_phase_pair [OF assms(1) _ _ Cons.prems(3)], assumption, assumption,
       rule threadless_phase_lower [OF _ Cons.prems(3)], assumption,
       rule threadless_phase_lower [OF _ Cons.prems(3)], assumption,
       rule FL, assumption, assumption,
       rule FL, assumption, assumption,
       rule FP)
qed

lemma rpc_set_next_badge_str:
  "rpc_set_next_badge badge_bits s nb msk = Inr r \<Longrightarrow>
     rpc_set_next_badge badge_bits s' nb msk = Inr r"
proof (induction badge_bits s nb msk rule: rpc_set_next_badge.induct)
  case (1 badge_bits s nb msk)
  from "1.prems" have lt: "\<not> min (2 ^ badge_bits) msk \<le> int nb"
    by (subst (asm) rpc_set_next_badge.simps) (auto split: if_splits)
  show ?case
  proof (cases "int nb AND msk = int nb")
    case True
    with "1.prems" lt have "r = nb"
      by (subst (asm) rpc_set_next_badge.simps) simp
    with True lt show ?thesis by (subst rpc_set_next_badge.simps) simp
  next
    case False
    with "1.prems" lt have
      "rpc_set_next_badge badge_bits s (nat (NOT msk AND int nb) + nb) msk = Inr r"
      by (subst (asm) rpc_set_next_badge.simps) simp
    from "1.IH" [OF lt False this]
    have "rpc_set_next_badge badge_bits s' (nat (NOT msk AND int nb) + nb) msk = Inr r" .
    with lt False show ?thesis by (subst rpc_set_next_badge.simps) simp
  qed
qed

lemma rpc_badges_loop_str:
  "rpc_badges_loop badge_bits s base msk peers nb = Inr p \<Longrightarrow>
     rpc_badges_loop badge_bits s' base msk peers nb = Inr p"
proof (induction peers arbitrary: nb p)
  case Nil
  then show ?case by simp
next
  case (Cons i2 peers)
  from Cons.prems obtain nb1 q where
    step: "rpc_set_next_badge badge_bits s (nb + 1) msk = Inr nb1" and
    rest: "rpc_badges_loop badge_bits s base msk peers nb1 = Inr q" and
    p: "(case q of (bs, nb2) \<Rightarrow> Inr ((int nb OR base) # bs, nb2)) = Inr p"
    by (auto simp: bind_eq_Inr_iff)
  obtain bs nb2 where q: "q = (bs, nb2)" by (cases q)
  with p have p': "p = ((int nb OR base) # bs, nb2)" by simp
  have "rpc_set_next_badge badge_bits s' (nb + 1) msk = Inr nb1"
    by (rule rpc_set_next_badge_str [OF step])
  moreover have "rpc_badges_loop badge_bits s' base msk peers nb1 = Inr q"
    by (rule Cons.IH [OF rest])
  ultimately show ?case using q p' by simp
qed

lemma rpc_badges_loop_sets:
  assumes "rpc_badges_loop badge_bits s base msk peers nb = Inr (bs, nb')"
    "within badge_bits msk nb"
  shows "set bs \<subseteq> badges_from base msk nb \<and> set bs \<subseteq> badges_below base msk nb' \<and>
         within badge_bits msk nb' \<and> nb \<le> nb'"
proof -
  from assms(2) have a: "int nb AND msk = int nb" "int nb < min (2 ^ badge_bits) msk"
    unfolding within_def by simp_all
  from rpc_badges_loop_raws [OF assms(1) a] obtain raws where
    raws: "bs = map (\<lambda>r. int r OR base) raws"
      "\<forall>r\<in>set raws. nb \<le> r \<and> r < nb' \<and> int r AND msk = int r \<and>
         int r < min (2 ^ badge_bits) msk" and
    nb': "int nb' AND msk = int nb'" "int nb' < min (2 ^ badge_bits) msk" "nb \<le> nb'"
    by blast
  from raws have "set bs \<subseteq> badges_from base msk nb"
    by (auto intro: badge_in_from)
  moreover from raws have "set bs \<subseteq> badges_below base msk nb'"
    by (auto intro: badge_in_below)
  ultimately show ?thesis using nb' unfolding within_def by blast
qed

lemma rpc_ends_loop_lower:
  "rpc_ends_loop badge_bits e base msk peers ends nb = Inr f \<Longrightarrow>
   within badge_bits msk nb \<Longrightarrow> flow_lower base msk set (within badge_bits msk) nb f"
proof (induction ends arbitrary: nb)
  case Nil
  then show ?case by auto
next
  case (Cons i rest)
  show ?case
  proof (cases "inst_ref (end_instance i) = inst_ref (end_instance e)")
    case False
    with Cons.prems(1) have
      "rpc_ends_loop badge_bits e base msk peers rest nb = Inr f" by simp
    from Cons.IH [OF this Cons.prems(2)] show ?thesis .
  next
    case True
    with Cons.prems(1) obtain bs nb1 where
      loop: "rpc_badges_loop badge_bits (end_str e) base msk peers nb = Inr (bs, nb1)" and
      res: "(if end_ref e = end_ref i then Inr (Return bs)
             else rpc_ends_loop badge_bits e base msk peers rest nb1) = Inr f"
      by (auto simp: bind_eq_Inr_iff)
    note r = rpc_badges_loop_sets [OF loop Cons.prems(2)]
    show ?thesis
    proof (cases "end_ref e = end_ref i")
      case True
      with res have "f = Return bs" by simp
      with r show ?thesis by simp
    next
      case False
      with res have
        "rpc_ends_loop badge_bits e base msk peers rest nb1 = Inr f" by simp
      from Cons.IH [OF this] r
      have l: "flow_lower base msk set (within badge_bits msk) nb1 f" by blast
      from r have le: "nb \<le> nb1" by blast
      show ?thesis
      proof (cases f)
        case (Return x)
        with l badges_from_mono [OF le, of base msk] show ?thesis by auto
      next
        case (Continue n)
        with l le show ?thesis by auto
      qed
    qed
  qed
qed

lemma rpc_ends_loop_pair:
  assumes "end_ref e1 \<noteq> end_ref e2"
    and "inst_ref (end_instance e1) = inst_ref (end_instance e2)"
  shows "rpc_ends_loop badge_bits e1 base msk peers ends nb = Inr f1 \<Longrightarrow>
     rpc_ends_loop badge_bits e2 base msk peers ends nb = Inr f2 \<Longrightarrow>
     within badge_bits msk nb \<Longrightarrow> flow_pair base msk set f1 f2"
proof (induction ends arbitrary: nb)
  case Nil
  then show ?case by auto
next
  case (Cons i rest)
  show ?case
  proof (cases "inst_ref (end_instance i) = inst_ref (end_instance e1)")
    case False
    with Cons.prems(1,2) assms(2) have
      "rpc_ends_loop badge_bits e1 base msk peers rest nb = Inr f1"
      "rpc_ends_loop badge_bits e2 base msk peers rest nb = Inr f2"
      by simp_all
    from Cons.IH [OF this Cons.prems(3)] show ?thesis .
  next
    case same: True
    with assms(2) have same2: "inst_ref (end_instance i) = inst_ref (end_instance e2)" by simp
    from same Cons.prems(1) obtain bs nb1 where
      loop1: "rpc_badges_loop badge_bits (end_str e1) base msk peers nb = Inr (bs, nb1)" and
      res1: "(if end_ref e1 = end_ref i then Inr (Return bs)
             else rpc_ends_loop badge_bits e1 base msk peers rest nb1) = Inr f1"
      by (auto simp: bind_eq_Inr_iff)
    have "rpc_badges_loop badge_bits (end_str e2) base msk peers nb = Inr (bs, nb1)"
      by (rule rpc_badges_loop_str [OF loop1])
    with same2 Cons.prems(2) have
      res2: "(if end_ref e2 = end_ref i then Inr (Return bs)
             else rpc_ends_loop badge_bits e2 base msk peers rest nb1) = Inr f2"
      by simp
    note r = rpc_badges_loop_sets [OF loop1 Cons.prems(3)]
    from r have below: "set bs \<subseteq> badges_below base msk nb1"
      and ok: "within badge_bits msk nb1" by blast+
    show ?thesis
    proof (cases "end_ref e1 = end_ref i")
      case True
      with assms(1) have "end_ref e2 \<noteq> end_ref i" by simp
      with res2 have
        "rpc_ends_loop badge_bits e2 base msk peers rest nb1 = Inr f2" by simp
      from rpc_ends_loop_lower [OF this ok]
      have "flow_lower base msk set (within badge_bits msk) nb1 f2" .
      from flow_pair_first [OF below this] True res1 show ?thesis by simp
    next
      case n1: False
      with res1 have t1:
        "rpc_ends_loop badge_bits e1 base msk peers rest nb1 = Inr f1" by simp
      show ?thesis
      proof (cases "end_ref e2 = end_ref i")
        case True
        from rpc_ends_loop_lower [OF t1 ok]
        have "flow_lower base msk set (within badge_bits msk) nb1 f1" .
        from flow_pair_first [OF below this] have "flow_pair base msk set (Return bs) f1" .
        from flow_pair_sym [OF this] True res2 show ?thesis by simp
      next
        case False
        with res2 have
          "rpc_ends_loop badge_bits e2 base msk peers rest nb1 = Inr f2" by simp
        from Cons.IH [OF t1 this ok] show ?thesis .
      qed
    qed
  qed
qed

lemma rpc_phase_lower:
  assumes "(if t then rpc_ends_loop badge_bits e base msk peers ends nb
            else Inr (Continue nb)) = Inr f" "within badge_bits msk nb"
  shows "flow_lower base msk (\<lambda>x. set x) (within badge_bits msk) nb f"
proof (cases t)
  case True
  with assms(1) have "rpc_ends_loop badge_bits e base msk peers ends nb = Inr f" by simp
  from rpc_ends_loop_lower [OF this assms(2)] show ?thesis .
next
  case False
  with assms show ?thesis by auto
qed

lemma rpc_phase_pair:
  assumes "end_ref e1 \<noteq> end_ref e2"
    and "inst_ref (end_instance e1) = inst_ref (end_instance e2)"
    and "(if t then rpc_ends_loop badge_bits e1 base msk peers ends nb
          else Inr (Continue nb)) = Inr f1"
    and "(if t then rpc_ends_loop badge_bits e2 base msk peers ends nb
          else Inr (Continue nb)) = Inr f2"
    and "within badge_bits msk nb"
  shows "flow_pair base msk (\<lambda>x. set x) f1 f2"
proof (cases t)
  case True
  with assms(3,4) have
    "rpc_ends_loop badge_bits e1 base msk peers ends nb = Inr f1"
    "rpc_ends_loop badge_bits e2 base msk peers ends nb = Inr f2"
    by simp_all
  from rpc_ends_loop_pair [OF assms(1,2) this assms(5)] show ?thesis .
next
  case False
  with assms show ?thesis by auto
qed

lemma rpc_connections_loop_lower:
  "rpc_connections_loop badge_bits e base msk cs nb = Inr y \<Longrightarrow>
   within badge_bits msk nb \<Longrightarrow> set y \<subseteq> badges_from base msk nb"
proof (induction cs arbitrary: nb y)
  case Nil
  then show ?case by simp
next
  case (Cons c cs)
  let ?KT = "\<lambda>n. bind (if attribute_default c ''to_global_rpc_endpoint''
                        then rpc_ends_loop badge_bits e base msk (from_ends c) (to_ends c) n
                        else Inr (Continue n))
      (\<lambda>r2. case r2 of Return badges \<Rightarrow> Inr badges
        | Continue n2 \<Rightarrow> rpc_connections_loop badge_bits e base msk cs n2)"
  have T: "set y \<subseteq> badges_from base msk n" if "within badge_bits msk n" "?KT n = Inr y" for n y
    by (rule compose_lower [where V = set and w = "\<lambda>x. x" and ok = "within badge_bits msk",
          OF that(2)])
      (rule rpc_phase_lower [OF _ that(1)], assumption, rule Cons.IH)
  from Cons.prems(1) have
    "bind (if attribute_default c ''from_global_rpc_endpoint''
           then rpc_ends_loop badge_bits e base msk (to_ends c) (from_ends c) nb
           else Inr (Continue nb))
       (\<lambda>r1. case r1 of Return badges \<Rightarrow> Inr badges | Continue n1 \<Rightarrow> ?KT n1) = Inr y"
    by simp
  then show ?case
    by (rule compose_lower [where V = set and w = "\<lambda>x. x" and ok = "within badge_bits msk"])
      (rule rpc_phase_lower [OF _ Cons.prems(2)], assumption, rule T)
qed

lemma rpc_connections_loop_pair:
  assumes "end_ref e1 \<noteq> end_ref e2"
    and "inst_ref (end_instance e1) = inst_ref (end_instance e2)"
  shows "rpc_connections_loop badge_bits e1 base msk cs nb = Inr y1 \<Longrightarrow>
     rpc_connections_loop badge_bits e2 base msk cs nb = Inr y2 \<Longrightarrow>
     within badge_bits msk nb \<Longrightarrow> separated base msk (set y1) (set y2)"
proof (induction cs arbitrary: nb y1 y2)
  case Nil
  then show ?case by simp
next
  case (Cons c cs)
  let ?KT = "\<lambda>e n. bind (if attribute_default c ''to_global_rpc_endpoint''
                        then rpc_ends_loop badge_bits e base msk (from_ends c) (to_ends c) n
                        else Inr (Continue n))
      (\<lambda>r2. case r2 of Return badges \<Rightarrow> Inr badges
        | Continue n2 \<Rightarrow> rpc_connections_loop badge_bits e base msk cs n2)"
  have TL: "set y \<subseteq> badges_from base msk n"
    if "within badge_bits msk n" "?KT e n = Inr y" for e n y
    by (rule compose_lower [where V = set and w = "\<lambda>x. x" and ok = "within badge_bits msk",
          OF that(2)])
      (rule rpc_phase_lower [OF _ that(1)], assumption, rule rpc_connections_loop_lower)
  have TP: "separated base msk (set y1) (set y2)"
    if "within badge_bits msk n" "?KT e1 n = Inr y1" "?KT e2 n = Inr y2" for n y1 y2
    by (rule compose_pair [where V = set and w = "\<lambda>x. x" and ok = "within badge_bits msk"
          and nb = n, OF that(2,3)])
      (rule rpc_phase_pair [OF assms _ _ that(1)], assumption, assumption,
       rule rpc_phase_lower [OF _ that(1)], assumption,
       rule rpc_phase_lower [OF _ that(1)], assumption,
       rule rpc_connections_loop_lower, assumption, assumption,
       rule rpc_connections_loop_lower, assumption, assumption,
       rule Cons.IH)
  from Cons.prems(1) have r1:
    "bind (if attribute_default c ''from_global_rpc_endpoint''
           then rpc_ends_loop badge_bits e1 base msk (to_ends c) (from_ends c) nb
           else Inr (Continue nb))
       (\<lambda>r1. case r1 of Return badges \<Rightarrow> Inr badges | Continue n1 \<Rightarrow> ?KT e1 n1) = Inr y1"
    by simp
  from Cons.prems(2) have r2:
    "bind (if attribute_default c ''from_global_rpc_endpoint''
           then rpc_ends_loop badge_bits e2 base msk (to_ends c) (from_ends c) nb
           else Inr (Continue nb))
       (\<lambda>r1. case r1 of Return badges \<Rightarrow> Inr badges | Continue n1 \<Rightarrow> ?KT e2 n1) = Inr y2"
    by simp
  show ?case
    by (rule compose_pair [where V = set and w = "\<lambda>x. x" and ok = "within badge_bits msk"
          and nb = nb, OF r1 r2])
      (rule rpc_phase_pair [OF assms _ _ Cons.prems(3)], assumption, assumption,
       rule rpc_phase_lower [OF _ Cons.prems(3)], assumption,
       rule rpc_phase_lower [OF _ Cons.prems(3)], assumption,
       rule TL, assumption, assumption,
       rule TL, assumption, assumption,
       rule TP)
qed

lemma rpc_set_next_badge_error:
  "rpc_set_next_badge badge_bits s nb msk = Inl err \<Longrightarrow> err = CouldntAllocateEndpointBadge s"
proof (induction badge_bits s nb msk rule: rpc_set_next_badge.induct)
  case (1 badge_bits s nb msk)
  show ?case
  proof (cases "min (2 ^ badge_bits) msk \<le> int nb")
    case True
    with "1.prems" show ?thesis by (subst (asm) rpc_set_next_badge.simps) simp
  next
    case lt: False
    show ?thesis
    proof (cases "int nb AND msk = int nb")
      case True
      with "1.prems" lt show ?thesis by (subst (asm) rpc_set_next_badge.simps) simp
    next
      case False
      with "1.prems" lt have
        "rpc_set_next_badge badge_bits s (nat (NOT msk AND int nb) + nb) msk = Inl err"
        by (subst (asm) rpc_set_next_badge.simps) simp
      from "1.IH" [OF lt False this] show ?thesis .
    qed
  qed
qed

lemma rpc_badges_loop_error:
  "rpc_badges_loop badge_bits s base msk peers nb = Inl err \<Longrightarrow>
     err = CouldntAllocateEndpointBadge s"
proof (induction peers arbitrary: nb)
  case Nil
  then show ?case by simp
next
  case (Cons i2 peers)
  from Cons.prems show ?case
    by (auto simp: bind_eq_Inl_iff dest: rpc_set_next_badge_error Cons.IH split: prod.splits)
qed

lemma rpc_ends_loop_error:
  "rpc_ends_loop badge_bits e base msk peers ends nb = Inl err \<Longrightarrow>
     err = CouldntAllocateEndpointBadge (end_str e)"
proof (induction ends arbitrary: nb)
  case Nil
  then show ?case by simp
next
  case (Cons i rest)
  from Cons.prems show ?case
    by (auto simp: bind_eq_Inl_iff dest: rpc_badges_loop_error Cons.IH
        split: prod.splits if_splits)
qed

lemma rpc_ends_loop_found:
  assumes "\<exists>i\<in>set ends. end_ref i = end_ref e \<and>
             inst_ref (end_instance i) = inst_ref (end_instance e)"
  shows "rpc_ends_loop badge_bits e base msk peers ends nb \<noteq> Inr (Continue n)"
  using assms
proof (induction ends arbitrary: nb)
  case Nil
  then show ?case by simp
next
  case (Cons i rest)
  show ?case
  proof (cases "end_ref i = end_ref e \<and> inst_ref (end_instance i) = inst_ref (end_instance e)")
    case True
    then show ?thesis
      by (cases "rpc_badges_loop badge_bits (end_str e) base msk peers nb")
        (auto split: prod.splits)
  next
    case False
    with Cons.prems have "\<exists>i\<in>set rest. end_ref i = end_ref e \<and>
             inst_ref (end_instance i) = inst_ref (end_instance e)" by auto
    note ih = Cons.IH [OF this]
    show ?thesis
    proof (cases "inst_ref (end_instance i) = inst_ref (end_instance e)")
      case False
      with ih show ?thesis by simp
    next
      case True
      with False have ne: "end_ref e \<noteq> end_ref i" by auto
      show ?thesis
      proof (cases "rpc_badges_loop badge_bits (end_str e) base msk peers nb")
        case (Inl err)
        with True show ?thesis by simp
      next
        case (Inr p)
        obtain bs nb1 where "p = (bs, nb1)" by (cases p)
        with Inr True ne ih [of nb1] show ?thesis by simp
      qed
    qed
  qed
qed

lemma rpc_connections_loop_found:
  assumes "\<exists>c\<in>set cs.
      (attribute_default c ''from_global_rpc_endpoint'' \<and>
       (\<exists>i\<in>set (from_ends c). end_ref i = end_ref e \<and>
          inst_ref (end_instance i) = inst_ref (end_instance e))) \<or>
      (attribute_default c ''to_global_rpc_endpoint'' \<and>
       (\<exists>i\<in>set (to_ends c). end_ref i = end_ref e \<and>
          inst_ref (end_instance i) = inst_ref (end_instance e)))"
  shows "rpc_connections_loop badge_bits e base msk cs nb
           = Inl (CouldntAllocateEndpointBadge (end_str e)) \<or>
         (\<exists>bs. rpc_connections_loop badge_bits e base msk cs nb = Inr bs)"
  using assms
proof (induction cs arbitrary: nb)
  case Nil
  then show ?case by simp
next
  case (Cons c cs)
  let ?A1 = "if attribute_default c ''from_global_rpc_endpoint''
             then rpc_ends_loop badge_bits e base msk (to_ends c) (from_ends c) nb
             else Inr (Continue nb)"
  let ?A2 = "\<lambda>n. if attribute_default c ''to_global_rpc_endpoint''
             then rpc_ends_loop badge_bits e base msk (from_ends c) (to_ends c) n
             else Inr (Continue n)"
  show ?case
  proof (cases ?A1)
    case (Inl err)
    then have "err = CouldntAllocateEndpointBadge (end_str e)"
      by (auto dest: rpc_ends_loop_error split: if_splits)
    with Inl show ?thesis by simp
  next
    case r1: (Inr f1)
    show ?thesis
    proof (cases f1)
      case (Return bs)
      with r1 show ?thesis by simp
    next
      case c1: (Continue n1)
      with r1 have no_from: "\<not> (attribute_default c ''from_global_rpc_endpoint'' \<and>
         (\<exists>i\<in>set (from_ends c). end_ref i = end_ref e \<and>
            inst_ref (end_instance i) = inst_ref (end_instance e)))"
        using rpc_ends_loop_found [of "from_ends c" e badge_bits base msk "to_ends c" nb n1]
        by (auto split: if_splits)
      show ?thesis
      proof (cases "?A2 n1")
        case (Inl err)
        then have "err = CouldntAllocateEndpointBadge (end_str e)"
          by (auto dest: rpc_ends_loop_error split: if_splits)
        with Inl r1 c1 show ?thesis by simp
      next
        case r2: (Inr f2)
        show ?thesis
        proof (cases f2)
          case (Return bs)
          with r1 c1 r2 show ?thesis by simp
        next
          case c2: (Continue n2)
          with r2 have no_to: "\<not> (attribute_default c ''to_global_rpc_endpoint'' \<and>
             (\<exists>i\<in>set (to_ends c). end_ref i = end_ref e \<and>
                inst_ref (end_instance i) = inst_ref (end_instance e)))"
            using rpc_ends_loop_found [of "to_ends c" e badge_bits base msk "from_ends c" n1 n2]
            by (auto split: if_splits)
          from Cons.prems no_from no_to have "\<exists>c\<in>set cs.
            (attribute_default c ''from_global_rpc_endpoint'' \<and>
             (\<exists>i\<in>set (from_ends c). end_ref i = end_ref e \<and>
                inst_ref (end_instance i) = inst_ref (end_instance e))) \<or>
            (attribute_default c ''to_global_rpc_endpoint'' \<and>
             (\<exists>i\<in>set (to_ends c). end_ref i = end_ref e \<and>
                inst_ref (end_instance i) = inst_ref (end_instance e)))"
            by auto
          from Cons.IH [OF this, of n2] r1 c1 r2 c2 show ?thesis by simp
        qed
      qed
    qed
  qed
qed

lemma notification_pair_fixture:
  "global_endpoint_badges (\<lambda>a. a = ''aarch32'') 28 notification_pair_composition
     (end_of 10 (component 0 ''server'') ''in1'') (settings []) ''aarch32'' = Inr (Badge 3)"
  "global_endpoint_badges (\<lambda>a. a = ''aarch32'') 28 notification_pair_composition
     (end_of 12 (component 0 ''server'') ''in2'') (settings []) ''aarch32'' = Inr (Badge 5)"
  by (simp_all add: global_endpoint_badges_def global_endpoint_base_def
      global_endpoint_mask_def notification_pair_composition_def settings_def
      end_of_def component_def connector_def attribute_default_def is_threadless_of_def
      set_next_badge.simps)

lemma rpc_pair_fixture:
  "global_rpc_endpoint_badges 28 rpc_pair_composition
     (end_of 10 (component 0 ''server'') ''in1'') (settings []) = Inr [2, 4, 6]"
  "global_rpc_endpoint_badges 28 rpc_pair_composition
     (end_of 14 (component 0 ''server'') ''in2'') (settings []) = Inr [8, 10]"
  by (simp_all add: global_rpc_endpoint_badges_def global_rpc_endpoint_base_def
      global_rpc_endpoint_mask_def rpc_pair_composition_def settings_def end_of_def
      component_def connector_def attribute_default_def rpc_set_next_badge.simps)

lemma rpc_fixture_exhausted:
  "global_rpc_endpoint_badges 28 rpc_composition (end_of 10 (component 0 ''server'') ''in'')
     (settings [((''server'', ''global_rpc_endpoint_mask''), 6)])
   = Inl (CouldntAllocateEndpointBadge ''server.in'')"
  by (simp add: global_rpc_endpoint_badges_def global_rpc_endpoint_base_def
      global_rpc_endpoint_mask_def rpc_composition_def settings_def end_of_def component_def
      connector_def attribute_default_def rpc_set_next_badge.simps)

text \<open>
  Claim C1, amended. Every badge an allocator returns is a cursor value contained in
  the mask, OR'd with the base; the single badge of the notification allocator comes
  from a cursor that is a power of two. When the base shares no bit with the mask
  (\<open>base & mask == 0\<close>), all badges emitted within one instance are pairwise distinct:
  those of one returned list, and those the same allocator returns for two different
  ends (\<open>end_ref\<close>) of the same instance (\<open>inst_ref\<close>, with its one name). The list
  of the RPC allocator has one badge per end on the other side of a connection that
  holds the end, so 3 for an end found only among
  the \<open>to_ends\<close> of connections with 3 \<open>from_ends\<close>; and for an end of such a connection
  the RPC allocator either returns a list or raises the error of an exhausted badge
  space, nothing else.
\<close>

theorem badges_pairwise_distinct:
  "(global_endpoint_badges is_arch_arm badge_bits composition e cfg arch = Inr (Badges bs) \<longrightarrow>
      (\<exists>raws. bs = map (\<lambda>r. int r OR global_endpoint_base cfg e) raws \<and> distinct raws \<and>
         (\<forall>r\<in>set raws. int r AND global_endpoint_mask badge_bits cfg e = int r)) \<and>
      (global_endpoint_base cfg e AND global_endpoint_mask badge_bits cfg e = 0 \<longrightarrow>
         distinct bs)) \<and>
   (global_endpoint_badges is_arch_arm badge_bits composition e cfg arch = Inr (Badge b) \<longrightarrow>
      (\<exists>r. b = int r OR global_endpoint_base cfg e \<and> (\<exists>k. r = 2 ^ k) \<and>
         int r AND global_endpoint_mask badge_bits cfg e = int r)) \<and>
   (global_endpoint_base cfg e AND global_endpoint_mask badge_bits cfg e = 0 \<and>
    inst_ref (end_instance e') = inst_ref (end_instance e) \<and>
    name (end_instance e') = name (end_instance e) \<and> end_ref e' \<noteq> end_ref e \<and>
    global_endpoint_badges is_arch_arm badge_bits composition e cfg arch = Inr x \<and>
    global_endpoint_badges is_arch_arm badge_bits composition e' cfg arch = Inr x' \<longrightarrow>
      badge_values x \<inter> badge_values x' = {}) \<and>
   (global_rpc_endpoint_badges badge_bits composition e cfg = Inr bs' \<longrightarrow>
      (\<exists>raws. bs' = map (\<lambda>r. int r OR global_rpc_endpoint_base cfg e) raws \<and> distinct raws \<and>
         (\<forall>r\<in>set raws. int r AND global_rpc_endpoint_mask badge_bits cfg e = int r)) \<and>
      (global_rpc_endpoint_base cfg e AND global_rpc_endpoint_mask badge_bits cfg e = 0 \<longrightarrow>
         distinct bs') \<and>
      (\<exists>c\<in>set (connections composition).
         (\<exists>i\<in>set (from_ends c). end_ref i = end_ref e) \<and> length bs' = length (to_ends c) \<or>
         (\<exists>i\<in>set (to_ends c). end_ref i = end_ref e) \<and> length bs' = length (from_ends c)) \<and>
      ((\<forall>c\<in>set (connections composition).
          (\<forall>i\<in>set (from_ends c). end_ref i \<noteq> end_ref e) \<and>
          ((\<exists>i\<in>set (to_ends c). end_ref i = end_ref e) \<longrightarrow> length (from_ends c) = 3)) \<longrightarrow>
       length bs' = 3)) \<and>
   (global_rpc_endpoint_base cfg e AND global_rpc_endpoint_mask badge_bits cfg e = 0 \<and>
    inst_ref (end_instance e') = inst_ref (end_instance e) \<and>
    name (end_instance e') = name (end_instance e) \<and> end_ref e' \<noteq> end_ref e \<and>
    global_rpc_endpoint_badges badge_bits composition e cfg = Inr y \<and>
    global_rpc_endpoint_badges badge_bits composition e' cfg = Inr y' \<longrightarrow>
      set y \<inter> set y' = {}) \<and>
   ((\<exists>c\<in>set (connections composition).
       (attribute_default c ''from_global_rpc_endpoint'' \<and>
        (\<exists>i\<in>set (from_ends c). end_ref i = end_ref e \<and>
           inst_ref (end_instance i) = inst_ref (end_instance e))) \<or>
       (attribute_default c ''to_global_rpc_endpoint'' \<and>
        (\<exists>i\<in>set (to_ends c). end_ref i = end_ref e \<and>
           inst_ref (end_instance i) = inst_ref (end_instance e)))) \<longrightarrow>
      global_rpc_endpoint_badges badge_bits composition e cfg
        = Inl (CouldntAllocateEndpointBadge (end_str e)) \<or>
      (\<exists>bs. global_rpc_endpoint_badges badge_bits composition e cfg = Inr bs))"
proof -
  let ?base = "global_endpoint_base cfg e" and ?msk = "global_endpoint_mask badge_bits cfg e"
  let ?rbase = "global_rpc_endpoint_base cfg e"
    and ?rmsk = "global_rpc_endpoint_mask badge_bits cfg e"
  have n_start: "\<exists>nb. set_next_badge badge_bits (end_str e) 0 ?msk = Inr nb \<and>
      connections_loop is_arch_arm badge_bits arch cfg e ?base ?msk
        (connections composition) nb = Inr x"
    if "global_endpoint_badges is_arch_arm badge_bits composition e cfg arch = Inr x" for x
    using that by (auto simp: global_endpoint_badges_def Let_def bind_eq_Inr_iff)
  have r_start: "\<exists>nb. rpc_set_next_badge badge_bits (end_str e) 1 ?rmsk = Inr nb \<and>
      rpc_connections_loop badge_bits e ?rbase ?rmsk (connections composition) nb = Inr y"
    if "global_rpc_endpoint_badges badge_bits composition e cfg = Inr y" for y
    using that by (auto simp: global_rpc_endpoint_badges_def Let_def bind_eq_Inr_iff)
  have N0: "global_endpoint_badges is_arch_arm badge_bits composition e cfg arch
        = Inr (Badges bs) \<longrightarrow>
      (\<exists>raws. bs = map (\<lambda>r. int r OR ?base) raws \<and> distinct raws \<and>
         (\<forall>r\<in>set raws. int r AND ?msk = int r)) \<and>
      (?base AND ?msk = 0 \<longrightarrow> distinct bs)"
  proof
    assume "global_endpoint_badges is_arch_arm badge_bits composition e cfg arch
        = Inr (Badges bs)"
    from n_start [OF this] obtain nb where
      nb: "set_next_badge badge_bits (end_str e) 0 ?msk = Inr nb" and
      loop: "connections_loop is_arch_arm badge_bits arch cfg e ?base ?msk
               (connections composition) nb = Inr (Badges bs)" by blast
    from set_next_badge_power [OF nb] have "\<exists>k. nb = 2 ^ k" "int nb AND ?msk \<noteq> 0" by auto
    from connections_loop_inv [OF loop this] obtain raws where
      raws: "bs = map (\<lambda>r. int r OR ?base) raws" "sorted_wrt (<) raws"
        "\<forall>r\<in>set raws. int r AND ?msk = int r"
      by auto
    from raws(2) have d: "distinct raws" by (simp add: strict_sorted_iff)
    have "?base AND ?msk = 0 \<longrightarrow> distinct bs"
      using distinct_or_base [OF _ d raws(3)] raws(1) by simp
    with raws d show "(\<exists>raws. bs = map (\<lambda>r. int r OR ?base) raws \<and> distinct raws \<and>
         (\<forall>r\<in>set raws. int r AND ?msk = int r)) \<and>
      (?base AND ?msk = 0 \<longrightarrow> distinct bs)" by blast
  qed
  have N1: "global_endpoint_badges is_arch_arm badge_bits composition e cfg arch
        = Inr (Badge b) \<longrightarrow>
      (\<exists>r. b = int r OR ?base \<and> (\<exists>k. r = 2 ^ k) \<and> int r AND ?msk = int r)"
  proof
    assume "global_endpoint_badges is_arch_arm badge_bits composition e cfg arch
        = Inr (Badge b)"
    from n_start [OF this] obtain nb where
      nb: "set_next_badge badge_bits (end_str e) 0 ?msk = Inr nb" and
      loop: "connections_loop is_arch_arm badge_bits arch cfg e ?base ?msk
               (connections composition) nb = Inr (Badge b)" by blast
    from set_next_badge_power [OF nb] have "\<exists>k. nb = 2 ^ k" "int nb AND ?msk \<noteq> 0" by auto
    from connections_loop_inv [OF loop this]
    show "\<exists>r. b = int r OR ?base \<and> (\<exists>k. r = 2 ^ k) \<and> int r AND ?msk = int r" by simp
  qed
  have N2: "?base AND ?msk = 0 \<and>
    inst_ref (end_instance e') = inst_ref (end_instance e) \<and>
    name (end_instance e') = name (end_instance e) \<and> end_ref e' \<noteq> end_ref e \<and>
    global_endpoint_badges is_arch_arm badge_bits composition e cfg arch = Inr x \<and>
    global_endpoint_badges is_arch_arm badge_bits composition e' cfg arch = Inr x' \<longrightarrow>
      badge_values x \<inter> badge_values x' = {}"
  proof (intro impI, elim conjE)
    assume h: "?base AND ?msk = 0"
      and inst: "inst_ref (end_instance e') = inst_ref (end_instance e)"
      and nm: "name (end_instance e') = name (end_instance e)"
      and ne: "end_ref e' \<noteq> end_ref e"
      and r: "global_endpoint_badges is_arch_arm badge_bits composition e cfg arch = Inr x"
      and r': "global_endpoint_badges is_arch_arm badge_bits composition e' cfg arch = Inr x'"
    from nm have same_base: "global_endpoint_base cfg e' = ?base"
      by (simp add: global_endpoint_base_def)
    from nm same_base have same_msk: "global_endpoint_mask badge_bits cfg e' = ?msk"
      by (simp add: global_endpoint_mask_def split: option.splits)
    note same = same_base same_msk
    from n_start [OF r] obtain nb where
      nb: "set_next_badge badge_bits (end_str e) 0 ?msk = Inr nb" and
      loop: "connections_loop is_arch_arm badge_bits arch cfg e ?base ?msk
               (connections composition) nb = Inr x" by blast
    from r' same obtain nb' where
      nb': "set_next_badge badge_bits (end_str e') 0 ?msk = Inr nb'" and
      loop': "connections_loop is_arch_arm badge_bits arch cfg e' ?base ?msk
               (connections composition) nb' = Inr x'"
      by (auto simp: global_endpoint_badges_def Let_def bind_eq_Inr_iff)
    from set_next_badge_str [OF nb, of "end_str e'"] nb' have "nb' = nb" by simp
    with loop' have loop'': "connections_loop is_arch_arm badge_bits arch cfg e' ?base ?msk
               (connections composition) nb = Inr x'" by simp
    from ne have ne': "end_ref e \<noteq> end_ref e'" by simp
    from connections_loop_pair [OF ne' inst [symmetric] loop loop'' power_in_start [OF nb]]
    have "separated ?base ?msk (badge_values x) (badge_values x')" .
    from separated_disjoint [OF h this] show "badge_values x \<inter> badge_values x' = {}" .
  qed
  have R0: "global_rpc_endpoint_badges badge_bits composition e cfg = Inr bs' \<longrightarrow>
      (\<exists>raws. bs' = map (\<lambda>r. int r OR ?rbase) raws \<and> distinct raws \<and>
         (\<forall>r\<in>set raws. int r AND ?rmsk = int r)) \<and>
      (?rbase AND ?rmsk = 0 \<longrightarrow> distinct bs') \<and>
      (\<exists>c\<in>set (connections composition).
         (\<exists>i\<in>set (from_ends c). end_ref i = end_ref e) \<and> length bs' = length (to_ends c) \<or>
         (\<exists>i\<in>set (to_ends c). end_ref i = end_ref e) \<and> length bs' = length (from_ends c)) \<and>
      ((\<forall>c\<in>set (connections composition).
          (\<forall>i\<in>set (from_ends c). end_ref i \<noteq> end_ref e) \<and>
          ((\<exists>i\<in>set (to_ends c). end_ref i = end_ref e) \<longrightarrow> length (from_ends c) = 3)) \<longrightarrow>
       length bs' = 3)"
  proof
    assume "global_rpc_endpoint_badges badge_bits composition e cfg = Inr bs'"
    from r_start [OF this] obtain nb where
      nb: "rpc_set_next_badge badge_bits (end_str e) 1 ?rmsk = Inr nb" and
      loop: "rpc_connections_loop badge_bits e ?rbase ?rmsk (connections composition) nb
               = Inr bs'" by blast
    from rpc_set_next_badge_result [OF nb]
    have "int nb AND ?rmsk = int nb" "int nb < min (2 ^ badge_bits) ?rmsk" by simp_all
    note inv = rpc_connections_loop_inv [OF loop this]
    from inv obtain raws where
      raws: "bs' = map (\<lambda>r. int r OR ?rbase) raws" "sorted_wrt (<) raws"
        "\<forall>r\<in>set raws. int r AND ?rmsk = int r"
      by blast
    from raws(2) have d: "distinct raws" by (simp add: strict_sorted_iff)
    from raws d have A: "\<exists>raws. bs' = map (\<lambda>r. int r OR ?rbase) raws \<and> distinct raws \<and>
         (\<forall>r\<in>set raws. int r AND ?rmsk = int r)" by blast
    have B: "?rbase AND ?rmsk = 0 \<longrightarrow> distinct bs'"
      using distinct_or_base [OF _ d raws(3)] raws(1) by simp
    from inv have C: "\<exists>c\<in>set (connections composition).
         (\<exists>i\<in>set (from_ends c). end_ref i = end_ref e) \<and> length bs' = length (to_ends c) \<or>
         (\<exists>i\<in>set (to_ends c). end_ref i = end_ref e) \<and> length bs' = length (from_ends c)"
      by blast
    have D: "(\<forall>c\<in>set (connections composition).
          (\<forall>i\<in>set (from_ends c). end_ref i \<noteq> end_ref e) \<and>
          ((\<exists>i\<in>set (to_ends c). end_ref i = end_ref e) \<longrightarrow> length (from_ends c) = 3)) \<longrightarrow>
       length bs' = 3"
      using C by metis
    from A B C D show "(\<exists>raws. bs' = map (\<lambda>r. int r OR ?rbase) raws \<and> distinct raws \<and>
         (\<forall>r\<in>set raws. int r AND ?rmsk = int r)) \<and>
      (?rbase AND ?rmsk = 0 \<longrightarrow> distinct bs') \<and>
      (\<exists>c\<in>set (connections composition).
         (\<exists>i\<in>set (from_ends c). end_ref i = end_ref e) \<and> length bs' = length (to_ends c) \<or>
         (\<exists>i\<in>set (to_ends c). end_ref i = end_ref e) \<and> length bs' = length (from_ends c)) \<and>
      ((\<forall>c\<in>set (connections composition).
          (\<forall>i\<in>set (from_ends c). end_ref i \<noteq> end_ref e) \<and>
          ((\<exists>i\<in>set (to_ends c). end_ref i = end_ref e) \<longrightarrow> length (from_ends c) = 3)) \<longrightarrow>
       length bs' = 3)" by (intro conjI)
  qed
  have R2: "?rbase AND ?rmsk = 0 \<and>
    inst_ref (end_instance e') = inst_ref (end_instance e) \<and>
    name (end_instance e') = name (end_instance e) \<and> end_ref e' \<noteq> end_ref e \<and>
    global_rpc_endpoint_badges badge_bits composition e cfg = Inr y \<and>
    global_rpc_endpoint_badges badge_bits composition e' cfg = Inr y' \<longrightarrow>
      set y \<inter> set y' = {}"
  proof (intro impI, elim conjE)
    assume h: "?rbase AND ?rmsk = 0"
      and inst: "inst_ref (end_instance e') = inst_ref (end_instance e)"
      and nm: "name (end_instance e') = name (end_instance e)"
      and ne: "end_ref e' \<noteq> end_ref e"
      and r: "global_rpc_endpoint_badges badge_bits composition e cfg = Inr y"
      and r': "global_rpc_endpoint_badges badge_bits composition e' cfg = Inr y'"
    from nm have same_base: "global_rpc_endpoint_base cfg e' = ?rbase"
      by (simp add: global_rpc_endpoint_base_def)
    from nm same_base have same_msk: "global_rpc_endpoint_mask badge_bits cfg e' = ?rmsk"
      by (simp add: global_rpc_endpoint_mask_def split: option.splits)
    note same = same_base same_msk
    from r_start [OF r] obtain nb where
      nb: "rpc_set_next_badge badge_bits (end_str e) 1 ?rmsk = Inr nb" and
      loop: "rpc_connections_loop badge_bits e ?rbase ?rmsk (connections composition) nb
               = Inr y" by blast
    from r' same obtain nb' where
      nb': "rpc_set_next_badge badge_bits (end_str e') 1 ?rmsk = Inr nb'" and
      loop': "rpc_connections_loop badge_bits e' ?rbase ?rmsk (connections composition) nb'
               = Inr y'"
      by (auto simp: global_rpc_endpoint_badges_def Let_def bind_eq_Inr_iff)
    from rpc_set_next_badge_str [OF nb, of "end_str e'"] nb' have "nb' = nb" by simp
    with loop' have loop'': "rpc_connections_loop badge_bits e' ?rbase ?rmsk
               (connections composition) nb = Inr y'" by simp
    from rpc_set_next_badge_result [OF nb] have w: "within badge_bits ?rmsk nb"
      unfolding within_def by simp
    from ne have ne': "end_ref e \<noteq> end_ref e'" by simp
    from rpc_connections_loop_pair [OF ne' inst [symmetric] loop loop'' w]
    have "separated ?rbase ?rmsk (set y) (set y')" .
    from separated_disjoint [OF h this] show "set y \<inter> set y' = {}" .
  qed
  have R3: "(\<exists>c\<in>set (connections composition).
       (attribute_default c ''from_global_rpc_endpoint'' \<and>
        (\<exists>i\<in>set (from_ends c). end_ref i = end_ref e \<and>
           inst_ref (end_instance i) = inst_ref (end_instance e))) \<or>
       (attribute_default c ''to_global_rpc_endpoint'' \<and>
        (\<exists>i\<in>set (to_ends c). end_ref i = end_ref e \<and>
           inst_ref (end_instance i) = inst_ref (end_instance e)))) \<longrightarrow>
      global_rpc_endpoint_badges badge_bits composition e cfg
        = Inl (CouldntAllocateEndpointBadge (end_str e)) \<or>
      (\<exists>bs. global_rpc_endpoint_badges badge_bits composition e cfg = Inr bs)"
  proof
    assume f: "\<exists>c\<in>set (connections composition).
       (attribute_default c ''from_global_rpc_endpoint'' \<and>
        (\<exists>i\<in>set (from_ends c). end_ref i = end_ref e \<and>
           inst_ref (end_instance i) = inst_ref (end_instance e))) \<or>
       (attribute_default c ''to_global_rpc_endpoint'' \<and>
        (\<exists>i\<in>set (to_ends c). end_ref i = end_ref e \<and>
           inst_ref (end_instance i) = inst_ref (end_instance e)))"
    show "global_rpc_endpoint_badges badge_bits composition e cfg
        = Inl (CouldntAllocateEndpointBadge (end_str e)) \<or>
      (\<exists>bs. global_rpc_endpoint_badges badge_bits composition e cfg = Inr bs)"
    proof (cases "rpc_set_next_badge badge_bits (end_str e) 1 ?rmsk")
      case (Inl err)
      from rpc_set_next_badge_error [OF this] Inl show ?thesis
        by (simp add: global_rpc_endpoint_badges_def Let_def)
    next
      case (Inr nb)
      with rpc_connections_loop_found [OF f, of badge_bits ?rbase ?rmsk nb] show ?thesis
        by (simp add: global_rpc_endpoint_badges_def Let_def)
    qed
  qed
  from N0 N1 N2 R0 R2 R3 show ?thesis by (intro conjI)
qed

theorem badges_pairwise_distinct_witness:
  "global_endpoint_badges (\<lambda>a. a = ''aarch32'') 28 irq_composition
     (end_of 21 (component 0 ''driver'') ''dev'') irq_configuration ''aarch32''
     = Inr (Badges [3, 5]) \<and>
   distinct [3, 5 :: int] \<and>
   global_endpoint_badges (\<lambda>a. a = ''aarch32'') 28 notification_pair_composition
     (end_of 10 (component 0 ''server'') ''in1'') (settings []) ''aarch32'' = Inr (Badge 3) \<and>
   global_endpoint_badges (\<lambda>a. a = ''aarch32'') 28 notification_pair_composition
     (end_of 12 (component 0 ''server'') ''in2'') (settings []) ''aarch32'' = Inr (Badge 5) \<and>
   (\<exists>r. (3 :: int) = int r OR 1 \<and> (\<exists>k. r = 2 ^ k) \<and> int r AND (2 ^ 28 - 2) = int r) \<and>
   badge_values (Badge 3) \<inter> badge_values (Badge 5) = {} \<and>
   global_rpc_endpoint_badges 28 rpc_composition (end_of 10 (component 0 ''server'') ''in'')
     (settings []) = Inr [2, 4, 6] \<and>
   distinct [2, 4, 6 :: int] \<and> length [2, 4, 6 :: int] = 3 \<and>
   global_rpc_endpoint_badges 28 rpc_pair_composition
     (end_of 10 (component 0 ''server'') ''in1'') (settings []) = Inr [2, 4, 6] \<and>
   global_rpc_endpoint_badges 28 rpc_pair_composition
     (end_of 14 (component 0 ''server'') ''in2'') (settings []) = Inr [8, 10] \<and>
   set [2, 4, 6 :: int] \<inter> set [8, 10] = {} \<and>
   (global_rpc_endpoint_badges 28 rpc_composition (end_of 10 (component 0 ''server'') ''in'')
      (settings [((''server'', ''global_rpc_endpoint_mask''), 6)])
      = Inl (CouldntAllocateEndpointBadge
               (end_str (end_of 10 (component 0 ''server'') ''in''))) \<or>
    (\<exists>bs. global_rpc_endpoint_badges 28 rpc_composition
            (end_of 10 (component 0 ''server'') ''in'')
            (settings [((''server'', ''global_rpc_endpoint_mask''), 6)]) = Inr bs))"
proof -
  let ?dev = "end_of 21 (component 0 ''driver'') ''dev''"
  let ?srv = "end_of 10 (component 0 ''server'') ''in''"
  let ?in1 = "end_of 10 (component 0 ''server'') ''in1''"
  let ?in2 = "end_of 12 (component 0 ''server'') ''in2''"
  let ?rin2 = "end_of 14 (component 0 ''server'') ''in2''"
  let ?six = "settings [((''server'', ''global_rpc_endpoint_mask''), 6)]"
  have n0: "global_endpoint_base irq_configuration ?dev
      AND global_endpoint_mask 28 irq_configuration ?dev = 0"
    by (simp add: global_endpoint_base_def global_endpoint_mask_def irq_configuration_def
        settings_def end_of_def component_def)
  have nb1: "global_endpoint_base (settings []) ?in1 = 1"
    by (simp add: global_endpoint_base_def settings_def end_of_def component_def)
  have nm1: "global_endpoint_mask 28 (settings []) ?in1 = 2 ^ 28 - 2"
    by (simp add: global_endpoint_base_def global_endpoint_mask_def settings_def end_of_def
        component_def)
  have n1: "global_endpoint_base (settings []) ?in1
      AND global_endpoint_mask 28 (settings []) ?in1 = 0"
    by (simp add: nb1 nm1)
  have r0: "global_rpc_endpoint_base (settings []) ?srv
      AND global_rpc_endpoint_mask 28 (settings []) ?srv = 0"
    by (simp add: global_rpc_endpoint_base_def global_rpc_endpoint_mask_def
        settings_def end_of_def component_def)
  have r1: "global_rpc_endpoint_base (settings []) ?in1
      AND global_rpc_endpoint_mask 28 (settings []) ?in1 = 0"
    by (simp add: global_rpc_endpoint_base_def global_rpc_endpoint_mask_def
        settings_def end_of_def component_def)
  have only: "\<forall>c\<in>set (connections rpc_composition).
          (\<forall>i\<in>set (from_ends c). end_ref i \<noteq> end_ref ?srv) \<and>
          ((\<exists>i\<in>set (to_ends c). end_ref i = end_ref ?srv) \<longrightarrow> length (from_ends c) = 3)"
    by (simp add: rpc_composition_def end_of_def)
  have found: "\<exists>c\<in>set (connections rpc_composition).
       (attribute_default c ''from_global_rpc_endpoint'' \<and>
        (\<exists>i\<in>set (from_ends c). end_ref i = end_ref ?srv \<and>
           inst_ref (end_instance i) = inst_ref (end_instance ?srv))) \<or>
       (attribute_default c ''to_global_rpc_endpoint'' \<and>
        (\<exists>i\<in>set (to_ends c). end_ref i = end_ref ?srv \<and>
           inst_ref (end_instance i) = inst_ref (end_instance ?srv)))"
    by (simp add: rpc_composition_def end_of_def component_def connector_def
        attribute_default_def)
  have same_n: "inst_ref (end_instance ?in2) = inst_ref (end_instance ?in1)"
    "name (end_instance ?in2) = name (end_instance ?in1)" "end_ref ?in2 \<noteq> end_ref ?in1"
    by (simp_all add: end_of_def component_def)
  have same_r: "inst_ref (end_instance ?rin2) = inst_ref (end_instance ?in1)"
    "name (end_instance ?rin2) = name (end_instance ?in1)" "end_ref ?rin2 \<noteq> end_ref ?in1"
    by (simp_all add: end_of_def component_def)
  have d1: "distinct [3, 5 :: int]"
    by (rule badges_pairwise_distinct [where bs = "[3, 5]", THEN conjunct1, THEN mp,
          OF irq_fixture, THEN conjunct2, THEN mp, OF n0])
  have p1: "\<exists>r. (3 :: int) = int r OR 1 \<and> (\<exists>k. r = 2 ^ k) \<and> int r AND (2 ^ 28 - 2) = int r"
    using badges_pairwise_distinct [where b = 3 and e = ?in1
          and is_arch_arm = "\<lambda>a. a = ''aarch32''" and badge_bits = 28
          and composition = notification_pair_composition and cfg = "settings []"
          and arch = "''aarch32''", THEN conjunct2, THEN conjunct1, THEN mp,
          OF notification_pair_fixture(1)]
    unfolding nb1 nm1 .
  have pn: "global_endpoint_base (settings []) ?in1
        AND global_endpoint_mask 28 (settings []) ?in1 = 0 \<and>
      inst_ref (end_instance ?in2) = inst_ref (end_instance ?in1) \<and>
      name (end_instance ?in2) = name (end_instance ?in1) \<and> end_ref ?in2 \<noteq> end_ref ?in1 \<and>
      global_endpoint_badges (\<lambda>a. a = ''aarch32'') 28 notification_pair_composition ?in1
        (settings []) ''aarch32'' = Inr (Badge 3) \<and>
      global_endpoint_badges (\<lambda>a. a = ''aarch32'') 28 notification_pair_composition ?in2
        (settings []) ''aarch32'' = Inr (Badge 5)"
    by (intro conjI n1 same_n notification_pair_fixture)
  have x1: "badge_values (Badge 3) \<inter> badge_values (Badge 5) = {}"
    by (rule badges_pairwise_distinct [where e = ?in1 and e' = ?in2 and x = "Badge 3"
            and x' = "Badge 5" and is_arch_arm = "\<lambda>a. a = ''aarch32''" and badge_bits = 28
            and composition = notification_pair_composition and cfg = "settings []"
            and arch = "''aarch32''",
            THEN conjunct2, THEN conjunct2, THEN conjunct1, THEN mp, OF pn])
  note rpc = badges_pairwise_distinct [where bs' = "[2, 4, 6]", THEN conjunct2,
      THEN conjunct2, THEN conjunct2, THEN conjunct1, THEN mp, OF rpc_fixture_default]
  have d2: "distinct [2, 4, 6 :: int]"
    by (rule rpc [THEN conjunct2, THEN conjunct1, THEN mp, OF r0])
  have l3: "length [2, 4, 6 :: int] = 3"
    by (rule rpc [THEN conjunct2, THEN conjunct2, THEN conjunct2, THEN mp, OF only])
  have pr: "global_rpc_endpoint_base (settings []) ?in1
        AND global_rpc_endpoint_mask 28 (settings []) ?in1 = 0 \<and>
      inst_ref (end_instance ?rin2) = inst_ref (end_instance ?in1) \<and>
      name (end_instance ?rin2) = name (end_instance ?in1) \<and>
      end_ref ?rin2 \<noteq> end_ref ?in1 \<and>
      global_rpc_endpoint_badges 28 rpc_pair_composition ?in1 (settings []) = Inr [2, 4, 6] \<and>
      global_rpc_endpoint_badges 28 rpc_pair_composition ?rin2 (settings []) = Inr [8, 10]"
    by (intro conjI r1 same_r rpc_pair_fixture)
  have x2: "set [2, 4, 6 :: int] \<inter> set [8, 10] = {}"
    by (rule badges_pairwise_distinct [where e = ?in1 and e' = ?rin2 and y = "[2, 4, 6]"
            and y' = "[8, 10]" and badge_bits = 28 and composition = rpc_pair_composition
            and cfg = "settings []", THEN conjunct2, THEN conjunct2, THEN conjunct2,
            THEN conjunct2, THEN conjunct1, THEN mp, OF pr])
  have t: "global_rpc_endpoint_badges 28 rpc_composition ?srv ?six
      = Inl (CouldntAllocateEndpointBadge (end_str ?srv)) \<or>
    (\<exists>bs. global_rpc_endpoint_badges 28 rpc_composition ?srv ?six = Inr bs)"
    by (rule badges_pairwise_distinct [where e = ?srv and composition = rpc_composition
          and badge_bits = 28 and cfg = ?six,
          THEN conjunct2, THEN conjunct2, THEN conjunct2, THEN conjunct2, THEN conjunct2,
          THEN mp, OF found])
  from irq_fixture d1 notification_pair_fixture p1 x1 rpc_fixture_default d2 l3
    rpc_pair_fixture x2 t
  show ?thesis by (intro conjI)
qed

text \<open>
  The claim as stated, for every configuration, fails twice. With base 6 and mask 14
  the server end of a connection with 3 clients gets the badges 6, 6 and 6; and with
  mask 6, which has room for the cursor values 2, 4 and 6 only, the allocator returns no
  list for the same end but raises the error of an exhausted badge space.
\<close>

theorem badges_collide_counterexample:
  "global_rpc_endpoint_badges 28 rpc_composition (end_of 10 (component 0 ''server'') ''in'')
     (settings [((''server'', ''global_rpc_endpoint_base''), 6),
                ((''server'', ''global_rpc_endpoint_mask''), 14)]) = Inr [6, 6, 6] \<and>
   \<not> distinct [6, 6, 6 :: int] \<and>
   global_rpc_endpoint_badges 28 rpc_composition (end_of 10 (component 0 ''server'') ''in'')
     (settings [((''server'', ''global_rpc_endpoint_mask''), 6)])
   = Inl (CouldntAllocateEndpointBadge ''server.in'')"
  using rpc_fixture_overlap rpc_fixture_exhausted by simp

section \<open>Canonical labels\<close>

lemma canonical_loop_cycle:
  "successively (\<lambda>a b. map_of gl a = Some b) (grp # rest) \<Longrightarrow> distinct (seen @ rest) \<Longrightarrow>
   map_of gl (last (grp # rest)) = Some g \<Longrightarrow> g \<in> set (seen @ rest) \<Longrightarrow>
     canonical_loop gl grp seen = Inl (TemplateError (CycleInGroupLabelling (seen @ rest)))"
proof (induction rest arbitrary: grp seen)
  case Nil
  then show ?case by (subst canonical_loop.simps) simp
next
  case (Cons r rest)
  from Cons.prems(1) have step: "map_of gl grp = Some r"
    and chain: "successively (\<lambda>a b. map_of gl a = Some b) (r # rest)" by simp_all
  from Cons.prems(2) have new: "r \<notin> set seen" and d: "distinct ((seen @ [r]) @ rest)"
    by auto
  from Cons.prems(3) have l: "map_of gl (last (r # rest)) = Some g" by simp
  from Cons.prems(4) have g: "g \<in> set ((seen @ [r]) @ rest)" by auto
  have "canonical_loop gl grp seen = canonical_loop gl r (seen @ [r])"
    using step new by (subst canonical_loop.simps) simp
  also have "\<dots> = Inl (TemplateError (CycleInGroupLabelling ((seen @ [r]) @ rest)))"
    by (rule Cons.IH [OF chain d l g])
  finally show ?case by simp
qed

lemma canonical_loop_fixed_point:
  "successively (\<lambda>a b. map_of gl a = Some b) (grp # rest) \<Longrightarrow> distinct (seen @ rest) \<Longrightarrow>
   map_of gl (last (grp # rest)) = None \<Longrightarrow>
     canonical_loop gl grp seen = Inr (last (grp # rest))"
proof (induction rest arbitrary: grp seen)
  case Nil
  then show ?case by (subst canonical_loop.simps) simp
next
  case (Cons r rest)
  from Cons.prems(1) have step: "map_of gl grp = Some r"
    and chain: "successively (\<lambda>a b. map_of gl a = Some b) (r # rest)" by simp_all
  from Cons.prems(2) have new: "r \<notin> set seen" and d: "distinct ((seen @ [r]) @ rest)"
    by auto
  from Cons.prems(3) have l: "map_of gl (last (r # rest)) = None" by simp
  have "canonical_loop gl grp seen = canonical_loop gl r (seen @ [r])"
    using step new by (subst canonical_loop.simps) simp
  also have "\<dots> = Inr (last (r # rest))"
    by (rule Cons.IH [OF chain d l])
  finally show ?case by simp
qed

lemma canonical_loop_Inr: "canonical_loop gl grp seen = Inr g \<Longrightarrow> map_of gl g = None"
proof (induction gl grp seen rule: canonical_loop.induct)
  case (1 gl grp seen)
  show ?case
  proof (cases "map_of gl grp")
    case None
    with "1.prems" have "g = grp" by (subst (asm) canonical_loop.simps) simp
    with None show ?thesis by simp
  next
    case (Some grp1)
    with "1.prems" have new: "grp1 \<notin> set seen"
      and "canonical_loop gl grp1 (seen @ [grp1]) = Inr g"
      by (subst (asm) canonical_loop.simps, simp split: if_splits)+
    with "1.IH" [OF Some] show ?thesis by simp
  qed
qed

lemma canonical_loop_Inl:
  "canonical_loop gl grp seen = Inl err \<Longrightarrow>
     \<exists>chain. err = TemplateError (CycleInGroupLabelling (seen @ chain))"
proof (induction gl grp seen rule: canonical_loop.induct)
  case (1 gl grp seen)
  show ?case
  proof (cases "map_of gl grp")
    case None
    with "1.prems" show ?thesis by (subst (asm) canonical_loop.simps) simp
  next
    case (Some grp1)
    show ?thesis
    proof (cases "grp1 \<in> set seen")
      case True
      with Some "1.prems" have "err = TemplateError (CycleInGroupLabelling (seen @ []))"
        by (subst (asm) canonical_loop.simps) simp
      then show ?thesis by blast
    next
      case False
      with Some "1.prems" have "canonical_loop gl grp1 (seen @ [grp1]) = Inl err"
        by (subst (asm) canonical_loop.simps) simp
      from "1.IH" [OF Some False this] obtain chain where
        "err = TemplateError (CycleInGroupLabelling ((seen @ [grp1]) @ chain))" by blast
      then have "err = TemplateError (CycleInGroupLabelling (seen @ (grp1 # chain)))" by simp
      then show ?thesis by blast
    qed
  qed
qed

text \<open>
  Claim C7. Canonicalization follows the redirects from a name. When the names met
  are all different and the last of them redirects to one of them, it fails with the
  cycle error that carries the names met, in order; when the last of them has no
  redirect, it returns that name; and the cycle error is the only failure, its chain
  starting at the name asked for. For the mapping \<open>A\<rightarrow>B, B\<rightarrow>A\<close> canonicalizing \<open>A\<close>
  fails with the chain \<open>A, B\<close> and canonicalizing \<open>B\<close> with the chain \<open>B, A\<close>.
\<close>

theorem get_canonical_label_cycle:
  "(ls \<noteq> [] \<and> distinct ls \<and> successively (\<lambda>a b. map_of group_labels a = Some b) ls \<and>
      map_of group_labels (last ls) = Some g \<and> g \<in> set ls \<longrightarrow>
      get_canonical_label group_labels (hd ls)
        = Inl (TemplateError (CycleInGroupLabelling ls))) \<and>
   (ls \<noteq> [] \<and> distinct ls \<and> successively (\<lambda>a b. map_of group_labels a = Some b) ls \<and>
      map_of group_labels (last ls) = None \<longrightarrow>
      get_canonical_label group_labels (hd ls) = Inr (last ls)) \<and>
   (\<forall>err. get_canonical_label group_labels l = Inl err \<longrightarrow>
      (\<exists>chain. err = TemplateError (CycleInGroupLabelling (l # chain)))) \<and>
   (A \<noteq> B \<longrightarrow>
      get_canonical_label [(A, B), (B, A)] A = Inl (TemplateError (CycleInGroupLabelling [A, B])) \<and>
      get_canonical_label [(A, B), (B, A)] B = Inl (TemplateError (CycleInGroupLabelling [B, A])))"
proof (intro conjI impI allI)
  assume a: "ls \<noteq> [] \<and> distinct ls \<and> successively (\<lambda>a b. map_of group_labels a = Some b) ls \<and>
      map_of group_labels (last ls) = Some g \<and> g \<in> set ls"
  then obtain x rest where ls: "ls = x # rest" by (cases ls) auto
  with a have "canonical_loop group_labels x [x]
      = Inl (TemplateError (CycleInGroupLabelling ([x] @ rest)))"
    by (intro canonical_loop_cycle) auto
  with ls show "get_canonical_label group_labels (hd ls)
        = Inl (TemplateError (CycleInGroupLabelling ls))"
    by (simp add: get_canonical_label_def)
next
  assume a: "ls \<noteq> [] \<and> distinct ls \<and> successively (\<lambda>a b. map_of group_labels a = Some b) ls \<and>
      map_of group_labels (last ls) = None"
  then obtain x rest where ls: "ls = x # rest" by (cases ls) auto
  with a have "canonical_loop group_labels x [x] = Inr (last (x # rest))"
    by (intro canonical_loop_fixed_point) auto
  with ls show "get_canonical_label group_labels (hd ls) = Inr (last ls)"
    by (simp add: get_canonical_label_def)
next
  fix err
  assume "get_canonical_label group_labels l = Inl err"
  then show "\<exists>chain. err = TemplateError (CycleInGroupLabelling (l # chain))"
    using canonical_loop_Inl [of group_labels l "[l]" err]
    by (simp add: get_canonical_label_def)
next
  assume "A \<noteq> B"
  then show "get_canonical_label [(A, B), (B, A)] A
      = Inl (TemplateError (CycleInGroupLabelling [A, B]))"
    by (simp add: get_canonical_label_def canonical_loop.simps)
next
  assume "A \<noteq> B"
  then show "get_canonical_label [(A, B), (B, A)] B
      = Inl (TemplateError (CycleInGroupLabelling [B, A]))"
    by (simp add: get_canonical_label_def canonical_loop.simps)
qed

theorem get_canonical_label_cycle_witness:
  "''A'' \<noteq> ''B'' \<and>
   get_canonical_label [(''A'', ''B''), (''B'', ''A'')] ''A''
     = Inl (TemplateError (CycleInGroupLabelling [''A'', ''B''])) \<and>
   get_canonical_label [(''A'', ''B''), (''B'', ''A'')] ''B''
     = Inl (TemplateError (CycleInGroupLabelling [''B'', ''A'']))"
proof -
  have ne: "''A'' \<noteq> ''B''" by simp
  note t = get_canonical_label_cycle [where A = "''A''" and B = "''B''",
      THEN conjunct2, THEN conjunct2, THEN conjunct2, THEN mp, OF ne]
  from ne t show ?thesis by (intro conjI) simp_all
qed

section \<open>Group labels\<close>

lemma get_canonical_label_Inr:
  "get_canonical_label gl l = Inr g \<Longrightarrow> map_of gl g = None"
  unfolding get_canonical_label_def by (rule canonical_loop_Inr)

lemma groups_loop_keys:
  "groups_loop gl cs = Inr gl' \<Longrightarrow>
     fst ` set gl \<subseteq> fst ` set gl' \<and>
     (\<forall>c\<in>set cs. address_space c \<noteq> name c \<longrightarrow> name c \<in> fst ` set gl')"
proof (induction cs arbitrary: gl)
  case Nil
  then show ?case by simp
next
  case (Cons c cs)
  show ?case
  proof (cases "address_space c \<noteq> name c")
    case True
    with Cons.prems obtain g where
      "groups_loop (AList.update (name c) g gl) cs = Inr gl'"
      by (auto simp: bind_eq_Inr_iff)
    from Cons.IH [OF this] show ?thesis by (auto simp: dom_update)
  next
    case False
    with Cons.prems have "groups_loop gl cs = Inr gl'" by simp
    from Cons.IH [OF this] False show ?thesis by auto
  qed
qed

lemma configured_loop_keys:
  "configured_loop cfg gl cs = Inr gl' \<Longrightarrow>
     fst ` set gl \<subseteq> fst ` set gl' \<and>
     (\<forall>c\<in>set cs. integrity_label cfg (name c) \<noteq> None \<longrightarrow> name c \<in> fst ` set gl')"
proof (induction cs arbitrary: gl)
  case Nil
  then show ?case by simp
next
  case (Cons c cs)
  show ?case
  proof (cases "integrity_label cfg (name c)")
    case None
    with Cons.prems have "configured_loop cfg gl cs = Inr gl'" by simp
    from Cons.IH [OF this] None show ?thesis by auto
  next
    case (Some l)
    with Cons.prems obtain g where
      "configured_loop cfg (AList.update (name c) g gl) cs = Inr gl'"
      by (auto simp: bind_eq_Inr_iff)
    from Cons.IH [OF this] show ?thesis by (auto simp: dom_update)
  qed
qed

lemma internal_loop_step:
  assumes "internal_loop gl (conn # conns) = Inr gl'"
  obtains groups where
    "for_each (\<lambda>e. get_canonical_label gl (name (end_instance e)))
       (from_ends conn @ to_ends conn) = Inr groups"
    "internal_loop (case remdups groups of
                      [g] \<Rightarrow> AList.update (conn_name conn) g gl
                    | _ \<Rightarrow> gl) conns = Inr gl'"
proof -
  from assms obtain groups where
    g: "for_each (\<lambda>e. get_canonical_label gl (name (end_instance e)))
       (from_ends conn @ to_ends conn) = Inr groups" and
    r: "(case remdups groups of
           [g] \<Rightarrow> internal_loop (AList.update (conn_name conn) g gl) conns
         | _ \<Rightarrow> internal_loop gl conns) = Inr gl'"
    by (auto simp: bind_eq_Inr_iff)
  from r have "internal_loop (case remdups groups of
                      [g] \<Rightarrow> AList.update (conn_name conn) g gl
                    | _ \<Rightarrow> gl) conns = Inr gl'"
    by (auto split: list.splits)
  with g show ?thesis by (rule that)
qed

lemma internal_loop_mono:
  "internal_loop gl conns = Inr gl' \<Longrightarrow> fst ` set gl \<subseteq> fst ` set gl'"
proof (induction conns arbitrary: gl)
  case Nil
  then show ?case by simp
next
  case (Cons conn conns)
  from Cons.prems obtain groups where
    r: "internal_loop (case remdups groups of
                      [g] \<Rightarrow> AList.update (conn_name conn) g gl
                    | _ \<Rightarrow> gl) conns = Inr gl'"
    by (rule internal_loop_step)
  have "fst ` set gl \<subseteq> fst ` set (case remdups groups of
                      [g] \<Rightarrow> AList.update (conn_name conn) g gl
                    | _ \<Rightarrow> gl)"
    by (auto simp: dom_update split: list.splits)
  with Cons.IH [OF r] show ?case by blast
qed

lemma internal_loop_prefix:
  "internal_loop gl (pre @ post) = Inr gl' \<Longrightarrow>
     \<exists>gl3. internal_loop gl pre = Inr gl3 \<and> internal_loop gl3 post = Inr gl'"
proof (induction pre arbitrary: gl)
  case Nil
  then show ?case by simp
next
  case (Cons conn pre)
  from Cons.prems have "internal_loop gl (conn # (pre @ post)) = Inr gl'" by simp
  then obtain groups where
    g: "for_each (\<lambda>e. get_canonical_label gl (name (end_instance e)))
       (from_ends conn @ to_ends conn) = Inr groups" and
    r: "internal_loop (case remdups groups of
                      [g] \<Rightarrow> AList.update (conn_name conn) g gl
                    | _ \<Rightarrow> gl) (pre @ post) = Inr gl'"
    by (rule internal_loop_step)
  from Cons.IH [OF r] obtain gl3 where
    a: "internal_loop (case remdups groups of
                      [g] \<Rightarrow> AList.update (conn_name conn) g gl
                    | _ \<Rightarrow> gl) pre = Inr gl3" and
    b: "internal_loop gl3 post = Inr gl'" by blast
  from g a have "internal_loop gl (conn # pre) = Inr gl3"
    by (auto split: list.splits)
  with b show ?case by blast
qed

lemma remdups_singleton: "set xs = {g} \<Longrightarrow> remdups xs = [g]"
proof -
  assume s: "set xs = {g}"
  have "length (remdups xs) = card (set xs)"
    by (rule length_remdups_card_conv)
  also have "\<dots> = 1" using s by simp
  finally obtain y where y: "remdups xs = [y]"
    by (cases "remdups xs") auto
  then have "set (remdups xs) = {y}" by simp
  with s have "y = g" by simp
  with y show ?thesis by simp
qed

lemma internal_loop_records:
  assumes "internal_loop gl (conn # post) = Inr gl'"
    and "for_each (\<lambda>e. get_canonical_label gl (name (end_instance e)))
           (from_ends conn @ to_ends conn) = Inr gs"
    and "set gs = {g}"
  shows "conn_name conn \<in> fst ` set gl'"
proof -
  from assms(1) obtain groups where
    g: "for_each (\<lambda>e. get_canonical_label gl (name (end_instance e)))
       (from_ends conn @ to_ends conn) = Inr groups" and
    r: "internal_loop (case remdups groups of
                      [g] \<Rightarrow> AList.update (conn_name conn) g gl
                    | _ \<Rightarrow> gl) post = Inr gl'"
    by (rule internal_loop_step)
  from g assms(2) have "groups = gs" by simp
  with assms(3) have "remdups groups = [g]" by (simp add: remdups_singleton)
  with r have "internal_loop (AList.update (conn_name conn) g gl) post = Inr gl'" by simp
  from internal_loop_mono [OF this] show ?thesis by (auto simp: dom_update)
qed

lemma canonical_items_for_each:
  "for_each (\<lambda>(c, grp). bind (get_canonical_label gl grp) (\<lambda>g. Inr (c, g))) xs = Inr ys \<Longrightarrow>
     map fst ys = map fst xs \<and> (\<forall>(k, v)\<in>set ys. map_of gl v = None)"
proof (induction xs arbitrary: ys)
  case Nil
  then show ?case by simp
next
  case (Cons x xs)
  obtain c grp where x: "x = (c, grp)" by (cases x)
  from Cons.prems x obtain g ys' where
    g: "get_canonical_label gl grp = Inr g" and
    rest: "for_each (\<lambda>(c, grp). bind (get_canonical_label gl grp) (\<lambda>g. Inr (c, g))) xs
             = Inr ys'" and
    ys: "ys = (c, g) # ys'"
    by (auto simp: bind_eq_Inr_iff)
  from Cons.IH [OF rest] get_canonical_label_Inr [OF g] x ys show ?case by auto
qed

lemma labels_fixture:
  "integrity_group_labels labels_composition labels_configuration
     = Inr [(''a'', ''grp''), (''b'', ''grp''), (''inside'', ''grp'')]"
  by (simp add: integrity_group_labels_def labels_composition_def labels_configuration_def
      settings_def component_def end_of_def connector_def canonical_items_def
      get_canonical_label_def canonical_loop.simps)

text \<open>
  Claim C6, amended. When \<open>integrity_group_labels\<close> returns a mapping, its keys
  include every instance that is grouped (its address space is not its own name) or
  has an \<open>integrity_label\<close>, and every connection whose ends resolve to one distinct
  label in the labels recorded when the connection is reached; and no value of the
  mapping is a key of it, so no value has a further redirect.
\<close>

theorem integrity_group_labels_keys:
  assumes "integrity_group_labels composition cfg = Inr result"
  shows
    "(\<forall>c\<in>set (instances composition).
        address_space c \<noteq> name c \<or> integrity_label cfg (name c) \<noteq> None \<longrightarrow>
        name c \<in> fst ` set result) \<and>
     (\<forall>gl1 gl2 gl3 pre conn post gs g.
        groups_loop [] (instances composition) = Inr gl1 \<and>
        configured_loop cfg gl1 (instances composition) = Inr gl2 \<and>
        connections composition = pre @ conn # post \<and>
        internal_loop gl2 pre = Inr gl3 \<and>
        for_each (\<lambda>e. get_canonical_label gl3 (name (end_instance e)))
          (from_ends conn @ to_ends conn) = Inr gs \<and>
        set gs = {g} \<longrightarrow>
        conn_name conn \<in> fst ` set result) \<and>
     (\<forall>k v. map_of result k = Some v \<longrightarrow> map_of result v = None)"
proof -
  from assms obtain l1 l2 l3 where
    s1: "groups_loop [] (instances composition) = Inr l1" and
    s2: "configured_loop cfg l1 (instances composition) = Inr l2" and
    s3: "internal_loop l2 (connections composition) = Inr l3" and
    s4: "canonical_items l3 = Inr result"
    by (auto simp: integrity_group_labels_def bind_eq_Inr_iff)
  from s4 have fe:
    "for_each (\<lambda>(c, grp). bind (get_canonical_label l3 grp) (\<lambda>g. Inr (c, g))) l3 = Inr result"
    unfolding canonical_items_def .
  note items = canonical_items_for_each [OF fe, THEN conjunct1]
    canonical_items_for_each [OF fe, THEN conjunct2]
  have "set (map fst result) = set (map fst l3)" by (simp only: items(1))
  then have keys: "fst ` set result = fst ` set l3" by (simp only: set_map)
  note k1 = groups_loop_keys [OF s1]
  note k2 = configured_loop_keys [OF s2]
  note k3 = internal_loop_mono [OF s3]
  have a: "\<forall>c\<in>set (instances composition).
        address_space c \<noteq> name c \<or> integrity_label cfg (name c) \<noteq> None \<longrightarrow>
        name c \<in> fst ` set result"
  proof (intro ballI impI)
    fix c
    assume c: "c \<in> set (instances composition)"
      and d: "address_space c \<noteq> name c \<or> integrity_label cfg (name c) \<noteq> None"
    from d have "name c \<in> fst ` set l2"
    proof
      assume "address_space c \<noteq> name c"
      with k1 c have "name c \<in> fst ` set l1" by blast
      with k2 show ?thesis by blast
    next
      assume "integrity_label cfg (name c) \<noteq> None"
      with k2 c show ?thesis by blast
    qed
    with k3 show "name c \<in> fst ` set result" unfolding keys by blast
  qed
  have b: "\<forall>gl1 gl2 gl3 pre conn post gs g.
        groups_loop [] (instances composition) = Inr gl1 \<and>
        configured_loop cfg gl1 (instances composition) = Inr gl2 \<and>
        connections composition = pre @ conn # post \<and>
        internal_loop gl2 pre = Inr gl3 \<and>
        for_each (\<lambda>e. get_canonical_label gl3 (name (end_instance e)))
          (from_ends conn @ to_ends conn) = Inr gs \<and>
        set gs = {g} \<longrightarrow>
        conn_name conn \<in> fst ` set result"
  proof (intro allI impI, elim conjE)
    fix gl1 gl2 gl3 pre conn post gs g
    assume h: "groups_loop [] (instances composition) = Inr gl1"
      "configured_loop cfg gl1 (instances composition) = Inr gl2"
      "connections composition = pre @ conn # post"
      "internal_loop gl2 pre = Inr gl3"
      "for_each (\<lambda>e. get_canonical_label gl3 (name (end_instance e)))
          (from_ends conn @ to_ends conn) = Inr gs"
      "set gs = {g}"
    from h(1) s1 have "gl1 = l1" by simp
    with h(2) s2 have "gl2 = l2" by simp
    with s3 h(3) have "internal_loop gl2 (pre @ conn # post) = Inr l3" by simp
    from internal_loop_prefix [OF this] h(4) have
      "internal_loop gl3 (conn # post) = Inr l3" by auto
    from internal_loop_records [OF this h(5,6)] show "conn_name conn \<in> fst ` set result"
      unfolding keys .
  qed
  have c: "\<forall>k v. map_of result k = Some v \<longrightarrow> map_of result v = None"
  proof (intro allI impI)
    fix k v
    assume "map_of result k = Some v"
    then have "(k, v) \<in> set result" by (rule map_of_SomeD)
    with items(2) have "map_of l3 v = None" by auto
    then have "v \<notin> fst ` set l3" by (simp add: map_of_eq_None_iff)
    then show "map_of result v = None" unfolding keys [symmetric]
      by (simp add: map_of_eq_None_iff)
  qed
  from a b c show ?thesis by (intro conjI)
qed

theorem integrity_group_labels_keys_witness:
  "integrity_group_labels labels_composition labels_configuration
     = Inr [(''a'', ''grp''), (''b'', ''grp''), (''inside'', ''grp'')] \<and>
   map_of [(''a'', ''grp''), (''b'', ''grp''), (''inside'', ''grp'')] ''a'' = Some ''grp'' \<and>
   map_of [(''a'', ''grp''), (''b'', ''grp''), (''inside'', ''grp'')] ''grp'' = None"
proof -
  have m: "map_of [(''a'', ''grp''), (''b'', ''grp''), (''inside'', ''grp'')] ''a''
      = Some ''grp''" by simp
  have "map_of [(''a'', ''grp''), (''b'', ''grp''), (''inside'', ''grp'')] ''grp'' = None"
    by (rule integrity_group_labels_keys [OF labels_fixture, THEN conjunct2, THEN conjunct2,
          THEN spec, THEN spec, THEN mp, OF m])
  with labels_fixture m show ?thesis by (intro conjI)
qed

text \<open>
  The claim as stated, with every instance among the keys, fails: for a single
  instance in its own address space and without a label the mapping is empty, as the
  docstring says (\<open>each non-independent instance\<close>).
\<close>

theorem independent_instance_counterexample:
  "integrity_group_labels \<lparr>instances = [component 0 ''a''], connections = []\<rparr> (settings [])
     = Inr [] \<and>
   name (component 0 ''a'') \<notin> fst ` set ([] :: group_labels)"
  by (simp add: integrity_group_labels_def settings_def component_def canonical_items_def)

section \<open>VirtQueue client IDs\<close>







section \<open>Determinism of the notification allocator\<close>

lemma relocate_end_simps:
  "end_str (relocate_end at_i at_e e) = end_str e"
  "end_ref (relocate_end at_i at_e e) = at_e (end_ref e)"
  "inst_ref (end_instance (relocate_end at_i at_e e)) = at_i (inst_ref (end_instance e))"
  "name (end_instance (relocate_end at_i at_e e)) = name (end_instance e)"
  by (simp_all add: relocate_end_def relocate_instance_def)

lemma relocate_connection_simps:
  "from_ends (relocate_connection at_i at_e c) = map (relocate_end at_i at_e) (from_ends c)"
  "to_ends (relocate_connection at_i at_e c) = map (relocate_end at_i at_e) (to_ends c)"
  "conn_type (relocate_connection at_i at_e c) = conn_type c"
  by (simp_all add: relocate_connection_def)

lemma threadless_loop_relocate:
  assumes "inj at_e"
  shows "threadless_loop is_arch_arm badge_bits arch cfg (relocate_end at_i at_e e) base msk
           (map (relocate_end at_i at_e) ends) nb
         = threadless_loop is_arch_arm badge_bits arch cfg e base msk ends nb"
proof (induction ends arbitrary: nb)
  case Nil
  show ?case by simp
next
  case (Cons to_end ends)
  show ?case
    by (simp add: relocate_end_simps inj_eq [OF assms] Cons.IH cong: if_cong)
qed

lemma endpoint_loop_relocate:
  assumes "inj at_i" "inj at_e"
  shows "endpoint_loop badge_bits (relocate_end at_i at_e e) base msk
           (map (relocate_end at_i at_e) ends) nb
         = endpoint_loop badge_bits e base msk ends nb"
proof (induction ends arbitrary: nb)
  case Nil
  show ?case by simp
next
  case (Cons i ends)
  have "bind (set_next_badge badge_bits (end_str e) nb msk)
          (endpoint_loop badge_bits (relocate_end at_i at_e e) base msk
             (map (relocate_end at_i at_e) ends))
      = bind (set_next_badge badge_bits (end_str e) nb msk)
          (endpoint_loop badge_bits e base msk ends)"
    by (cases "set_next_badge badge_bits (end_str e) nb msk") (simp_all add: Cons.IH)
  then show ?case
    by (simp add: relocate_end_simps inj_eq [OF assms(1)] inj_eq [OF assms(2)] Cons.IH)
qed

lemma is_threadless_of_relocate:
  assumes "inj at_i"
  shows "is_threadless_of (relocate_connection at_i at_e c) (relocate_end at_i at_e e)
         = is_threadless_of c e"
proof -
  have "(at_i (inst_ref (end_instance e))
          \<in> (\<lambda>x. at_i (inst_ref (end_instance x))) ` set (to_ends c))
      = (inst_ref (end_instance e) \<in> (\<lambda>x. inst_ref (end_instance x)) ` set (to_ends c))"
    using assms by (auto simp: inj_eq)
  then show ?thesis
    by (simp add: is_threadless_of_def relocate_connection_simps relocate_end_simps
        image_image comp_def)
qed

lemma attribute_default_relocate:
  "attribute_default (relocate_connection at_i at_e c) a = attribute_default c a"
  by (simp add: attribute_default_def relocate_connection_simps)

lemma connections_loop_relocate:
  assumes "inj at_i" "inj at_e"
  shows "connections_loop is_arch_arm badge_bits arch cfg (relocate_end at_i at_e e) base msk
           (map (relocate_connection at_i at_e) cs) nb
         = connections_loop is_arch_arm badge_bits arch cfg e base msk cs nb"
proof (induction cs arbitrary: nb)
  case Nil
  show ?case by (simp add: relocate_end_simps)
next
  case (Cons c cs)
  have rest: "connections_loop is_arch_arm badge_bits arch cfg (relocate_end at_i at_e e) base msk
           (map (relocate_connection at_i at_e) cs)
         = connections_loop is_arch_arm badge_bits arch cfg e base msk cs"
    by (rule ext) (rule Cons.IH)
  show ?case
    by (simp add: relocate_connection_simps threadless_loop_relocate [OF assms(2)]
        endpoint_loop_relocate [OF assms] is_threadless_of_relocate [OF assms(1)]
        attribute_default_relocate rest)
qed

text \<open>
  Claim C9. Two invocations of the notification badge allocator on the same
  composition, end, configuration and architecture tag give the same result, a badge,
  a list of badges or an exception. The allocator reads nothing but its arguments and
  starts its cursor afresh, and of the identity of the objects it uses only whether two
  references are equal: the result is the same when the second invocation finds the
  instances and the ends at other addresses, as after a restart of the process.
\<close>

theorem global_endpoint_badges_deterministic:
  assumes "inj at_i" "inj at_e"
  shows "global_endpoint_badges is_arch_arm badge_bits
           (relocate_composition at_i at_e composition) (relocate_end at_i at_e e) cfg arch
         = global_endpoint_badges is_arch_arm badge_bits composition e cfg arch"
proof -
  have base: "global_endpoint_base cfg (relocate_end at_i at_e e) = global_endpoint_base cfg e"
    by (simp add: global_endpoint_base_def relocate_end_simps)
  have msk: "global_endpoint_mask badge_bits cfg (relocate_end at_i at_e e)
      = global_endpoint_mask badge_bits cfg e"
    by (simp add: global_endpoint_mask_def relocate_end_simps base split: option.splits)
  have loop: "connections_loop is_arch_arm badge_bits arch cfg (relocate_end at_i at_e e) b m
           (map (relocate_connection at_i at_e) cs)
         = connections_loop is_arch_arm badge_bits arch cfg e b m cs" for b m cs
    by (rule ext) (rule connections_loop_relocate [OF assms])
  show ?thesis
    by (simp add: global_endpoint_badges_def Let_def base msk relocate_end_simps
        relocate_composition_def loop)
qed


theorem global_endpoint_badges_deterministic_witness:
  "inj (\<lambda>r :: nat. r + 100) \<and>
   global_endpoint_badges (\<lambda>a. a = ''aarch32'') 28
     (relocate_composition (\<lambda>r. r + 100) (\<lambda>r. r + 100) irq_composition)
     (relocate_end (\<lambda>r. r + 100) (\<lambda>r. r + 100) (end_of 21 (component 0 ''driver'') ''dev''))
     irq_configuration ''aarch32''
   = Inr (Badges [3, 5])"
proof -
  have i: "inj (\<lambda>r :: nat. r + 100)" by (rule injI) simp
  from i global_endpoint_badges_deterministic [OF i i] irq_fixture show ?thesis by simp
qed

end
